theory Spec2Isabelle
  imports Complex_Main "HOL-Library.AList"
begin

section \<open>Python dictionaries\<close>

text \<open>
  A Python \<open>dict\<close> keeps its keys in insertion order, and the program iterates over
  dictionaries in several places, so a dictionary is an association list:
  \<open>d[k] = v\<close> is \<^const>\<open>AList.update\<close> (overwrite in place, or append a new key),
  \<open>k in d\<close> is \<open>map_of d k \<noteq> None\<close>, and \<open>len(d) == 0\<close> is \<open>d = []\<close>.
\<close>

type_synonym ('k, 'v) dict = "('k \<times> 'v) list"

definition dict_get :: "('k, 'v) dict \<Rightarrow> 'k \<Rightarrow> 'v \<Rightarrow> 'v" where
  \<comment> \<open>\<open>d.get(k, default)\<close>\<close>
  "dict_get d k dflt = (case map_of d k of None \<Rightarrow> dflt | Some v \<Rightarrow> v)"

definition dict_update_all :: "('k, 'v) dict \<Rightarrow> ('k, 'v) dict \<Rightarrow> ('k, 'v) dict" where
  \<comment> \<open>\<open>d.update(other)\<close>\<close>
  "dict_update_all d other = fold (\<lambda>(k, v) acc. AList.update k v acc) other d"

definition wf_dict :: "('k, 'v) dict \<Rightarrow> bool" where
  \<comment> \<open>every key of a dictionary occurs once\<close>
  "wf_dict d = distinct (map fst d)"

section \<open>The inverted index (M1/ANALYST\_OPTION/indexer.py)\<close>

record posting =
  tf :: int
  is_important :: bool

type_synonym postings = "(nat, posting) dict"

type_synonym index = "(string, postings) dict"

text \<open>
  \<open>self.index\<close> is a \<open>defaultdict\<close> of \<open>defaultdict\<close>s: \<open>self.index[token][doc_id] = p\<close>
  creates the posting list of \<open>token\<close> when it is missing.
\<close>

definition set_posting :: "index \<Rightarrow> string \<Rightarrow> nat \<Rightarrow> posting \<Rightarrow> index" where
  "set_posting idx token doc_id p =
     AList.update token (AList.update doc_id p (dict_get idx token [])) idx"

definition lookup_posting :: "index \<Rightarrow> string \<Rightarrow> nat \<Rightarrow> posting option" where
  "lookup_posting idx token doc_id =
     (case map_of idx token of None \<Rightarrow> None | Some ps \<Rightarrow> map_of ps doc_id)"

definition wf_index :: "index \<Rightarrow> bool" where
  "wf_index idx = (wf_dict idx \<and> (\<forall>ps \<in> snd ` set idx. wf_dict ps))"

record inverted_index =
  index :: index
  doc_ids :: "(string, nat) dict"
  doc_id_to_url :: "(nat, string) dict"
  next_doc_id :: nat

definition new_inverted_index :: inverted_index where
  "new_inverted_index = \<lparr>index = [], doc_ids = [], doc_id_to_url = [], next_doc_id = 0\<rparr>"

definition get_or_create_doc_id ::
  "'a inverted_index_scheme \<Rightarrow> string \<Rightarrow> nat \<times> 'a inverted_index_scheme" where
  "get_or_create_doc_id s url =
     (case map_of (doc_ids s) url of
        None \<Rightarrow>
          (next_doc_id s,
           s\<lparr>doc_ids := AList.update url (next_doc_id s) (doc_ids s),
             doc_id_to_url := AList.update (next_doc_id s) url (doc_id_to_url s),
             next_doc_id := next_doc_id s + 1\<rparr>)
      | Some doc_id \<Rightarrow> (doc_id, s))"

definition count_tokens :: "string list \<Rightarrow> (string, int) dict" where
  \<comment> \<open>\<open>for token in tokens: token_counts[token] += 1\<close> on a \<open>defaultdict(int)\<close>\<close>
  "count_tokens tokens =
     fold (\<lambda>token counts. AList.update token (dict_get counts token 0 + 1) counts) tokens []"

text \<open>
  \<open>all_tokens = set(tokens) | set(important_tokens)\<close> is a Python set, which iterates in
  an order the language leaves open. Each iteration writes the posting of its own token,
  so the mapping that results is the same for every order; the model visits the tokens
  in the order of \<open>remdups (tokens @ important_tokens)\<close>.
\<close>

definition index_tokens :: "index \<Rightarrow> nat \<Rightarrow> string list \<Rightarrow> string list \<Rightarrow> index" where
  "index_tokens idx doc_id tokens important_tokens =
     (let important_set = set important_tokens;
          token_counts = count_tokens tokens;
          important_token_counts = count_tokens important_tokens;
          all_tokens = remdups (tokens @ important_tokens)
      in fold (\<lambda>token acc.
                 let tf_normal = dict_get token_counts token 0;
                     tf_important = dict_get important_token_counts token 0;
                     total_tf = tf_normal + tf_important;
                     is_imp = (token \<in> important_set \<or> tf_important > 0)
                 in set_posting acc token doc_id \<lparr>tf = total_tf, is_important = is_imp\<rparr>)
              all_tokens idx)"

definition add_document ::
  "'a inverted_index_scheme \<Rightarrow> string \<Rightarrow> string list \<Rightarrow> string list
     \<Rightarrow> 'a inverted_index_scheme" where
  \<comment> \<open>\<open>InvertedIndex.add_document\<close>; lines 47 to 83 of \<open>DiskBasedIndexer.add_document\<close>
      are the same statements\<close>
  "add_document s url tokens important_tokens =
     (let (doc_id, s1) = get_or_create_doc_id s url
      in s1\<lparr>index := index_tokens (index s1) doc_id tokens important_tokens\<rparr>)"

section \<open>The disk-based indexer (M1/DEVELOPER\_OPTION/disk\_indexer.py)\<close>

subsection \<open>Segment file names\<close>

definition digit_char :: "nat \<Rightarrow> char" where
  "digit_char d = char_of (48 + d)"

fun str_nat :: "nat \<Rightarrow> string" where
  "str_nat n = (if n < 10 then [digit_char n] else str_nat (n div 10) @ [digit_char (n mod 10)])"

declare str_nat.simps [simp del]

definition format_03d :: "nat \<Rightarrow> string" where
  \<comment> \<open>the format specification \<open>:03d\<close>: at least three digits, padded with zeros\<close>
  "format_03d n = replicate (3 - length (str_nat n)) (CHR ''0'') @ str_nat n"

definition partial_index_name :: "nat \<Rightarrow> string" where
  "partial_index_name i = ''partial_index_'' @ format_03d i @ ''.json''"

definition partial_mapping_name :: "nat \<Rightarrow> string" where
  "partial_mapping_name i = ''partial_mapping_'' @ format_03d i @ ''.json''"

definition nat_of_digits :: "string \<Rightarrow> nat" where
  "nat_of_digits s = foldl (\<lambda>acc c. 10 * acc + (of_char c - 48)) 0 s"

subsection \<open>Files\<close>

text \<open>
  A file holds what \<open>json.dump\<close> wrote and \<open>json.load\<close> reads back: the dictionary
  itself. The document identifiers that are written as \<open>str(doc_id)\<close> and read back with
  \<open>int(doc_id_str)\<close> stay numbers in the model. A directory maps file names to files;
  the directory of the partial indexes is \<open>None\<close> once \<open>shutil.rmtree\<close> has removed it.
\<close>

datatype file_content =
    IndexJson index
  | MappingJson "(string, nat) dict" "(nat, string) dict"

type_synonym directory = "(string, file_content) dict"

datatype py_error = FileNotFoundError | JsonShapeError | ValueError

record disk_based_indexer = inverted_index +
  max_docs_in_memory :: int
  docs_in_memory :: nat
  partial_index_count :: nat
  partial_index_dir :: "directory option"
  output_dir :: directory

definition new_disk_based_indexer ::
  "directory \<Rightarrow> directory option \<Rightarrow> int \<Rightarrow> disk_based_indexer" where
  \<comment> \<open>\<open>__init__\<close>: \<open>os.makedirs(..., exist_ok=True)\<close> keeps a directory that is there\<close>
  "new_disk_based_indexer out_files partial_files max_docs =
     \<lparr>index = [], doc_ids = [], doc_id_to_url = [], next_doc_id = 0,
      max_docs_in_memory = max_docs, docs_in_memory = 0, partial_index_count = 0,
      partial_index_dir = Some (case partial_files of None \<Rightarrow> [] | Some d \<Rightarrow> d),
      output_dir = out_files\<rparr>"

definition offload_to_disk :: "disk_based_indexer \<Rightarrow> py_error + disk_based_indexer" where
  "offload_to_disk s =
     (if index s = [] then Inr s
      else case partial_index_dir s of
        None \<Rightarrow> Inl FileNotFoundError
      | Some d \<Rightarrow>
          let d1 = AList.update (partial_index_name (partial_index_count s))
                     (IndexJson (index s)) d;
              d2 = AList.update (partial_mapping_name (partial_index_count s))
                     (MappingJson (doc_ids s) (doc_id_to_url s)) d1
          in Inr (s\<lparr>partial_index_dir := Some d2,
                    partial_index_count := partial_index_count s + 1,
                    index := [],
                    docs_in_memory := 0\<rparr>))"

definition disk_add_document ::
  "disk_based_indexer \<Rightarrow> string \<Rightarrow> string list \<Rightarrow> string list
     \<Rightarrow> py_error + disk_based_indexer" where
  "disk_add_document s url tokens important_tokens =
     (let s1 = add_document s url tokens important_tokens;
          s2 = s1\<lparr>docs_in_memory := docs_in_memory s1 + 1\<rparr>
      in if int (docs_in_memory s2) \<ge> max_docs_in_memory s2
         then offload_to_disk s2 else Inr s2)"

subsection \<open>Merging the partial indexes\<close>

definition merge_posting :: "index \<Rightarrow> string \<Rightarrow> nat \<Rightarrow> posting \<Rightarrow> index" where
  \<comment> \<open>\<open>existing = merged_index[term][doc_id]\<close> reads the default posting when there is none\<close>
  "merge_posting merged term doc_id posting_data =
     (let existing = (case lookup_posting merged term doc_id of
                        None \<Rightarrow> \<lparr>tf = 0, is_important = False\<rparr>
                      | Some p \<Rightarrow> p)
      in set_posting merged term doc_id
           \<lparr>tf = tf existing + tf posting_data,
            is_important = (is_important existing \<or> is_important posting_data)\<rparr>)"

definition merge_partial_index :: "index \<Rightarrow> index \<Rightarrow> index" where
  "merge_partial_index merged partial_index =
     fold (\<lambda>(term, ps) acc.
             fold (\<lambda>(doc_id, posting_data) acc'. merge_posting acc' term doc_id posting_data)
                  ps acc)
          partial_index merged"

text \<open>
  The loop \<open>for i in range(self.partial_index_count)\<close>. Opening a file that is not there
  raises; a file that does not hold a partial index is reported as an error too.
\<close>

fun load_partial_indexes :: "directory \<Rightarrow> nat list \<Rightarrow> index \<Rightarrow> py_error + index" where
  "load_partial_indexes d [] merged = Inr merged"
| "load_partial_indexes d (i # rest) merged =
     (case map_of d (partial_index_name i) of
        None \<Rightarrow> Inl FileNotFoundError
      | Some (IndexJson partial_index) \<Rightarrow>
          load_partial_indexes d rest (merge_partial_index merged partial_index)
      | Some (MappingJson _ _) \<Rightarrow> Inl JsonShapeError)"

definition save_final_index_from_dict ::
  "disk_based_indexer \<Rightarrow> index \<Rightarrow> disk_based_indexer" where
  "save_final_index_from_dict s index_dict =
     s\<lparr>output_dir := AList.update ''inverted_index.json'' (IndexJson index_dict) (output_dir s)\<rparr>"

definition save_final_index :: "disk_based_indexer \<Rightarrow> disk_based_indexer" where
  "save_final_index s = save_final_index_from_dict s (index s)"

definition merge_partial_indexes :: "disk_based_indexer \<Rightarrow> py_error + disk_based_indexer" where
  "merge_partial_indexes s =
     (if partial_index_count s = 0 then Inr (save_final_index s)
      else case partial_index_dir s of
        None \<Rightarrow> Inl FileNotFoundError
      | Some d \<Rightarrow>
          (case load_partial_indexes d [0 ..< partial_index_count s] [] of
             Inl e \<Rightarrow> Inl e
           | Inr merged_index \<Rightarrow> Inr (save_final_index_from_dict s merged_index)))"

fun collect_doc_mappings ::
  "directory \<Rightarrow> nat list \<Rightarrow> (string, nat) dict \<times> (nat, string) dict
     \<Rightarrow> (string, nat) dict \<times> (nat, string) dict" where
  "collect_doc_mappings d [] acc = acc"
| "collect_doc_mappings d (i # rest) (all_doc_ids, all_doc_id_to_url) =
     (case map_of d (partial_mapping_name i) of
        Some (MappingJson url_to_id id_to_url) \<Rightarrow>
          collect_doc_mappings d rest
            (dict_update_all all_doc_ids url_to_id,
             fold (\<lambda>(k, v) acc. AList.update k v acc) id_to_url all_doc_id_to_url)
      | _ \<Rightarrow> collect_doc_mappings d rest (all_doc_ids, all_doc_id_to_url))"

definition save_doc_mappings :: "disk_based_indexer \<Rightarrow> disk_based_indexer" where
  "save_doc_mappings s =
     (let d = (case partial_index_dir s of None \<Rightarrow> [] | Some d \<Rightarrow> d);
          (ids, urls) = collect_doc_mappings d [0 ..< partial_index_count s] ([], []);
          all_doc_ids = dict_update_all ids (doc_ids s);
          all_doc_id_to_url = dict_update_all urls (doc_id_to_url s)
      in s\<lparr>output_dir := AList.update ''doc_mapping.json''
                            (MappingJson all_doc_ids all_doc_id_to_url) (output_dir s)\<rparr>)"

definition finalize :: "disk_based_indexer \<Rightarrow> py_error + disk_based_indexer" where
  "finalize s =
     (case (if index s \<noteq> [] then offload_to_disk s else Inr s) of
        Inl e \<Rightarrow> Inl e
      | Inr s1 \<Rightarrow>
          (case merge_partial_indexes s1 of
             Inl e \<Rightarrow> Inl e
           | Inr s2 \<Rightarrow> Inr ((save_doc_mappings s2)\<lparr>partial_index_dir := None\<rparr>)))"

definition get_num_documents :: "disk_based_indexer \<Rightarrow> nat" where
  "get_num_documents s =
     (if partial_index_count s = 0 then length (doc_ids s) else next_doc_id s)"

definition get_partial_index_count :: "disk_based_indexer \<Rightarrow> nat" where
  "get_partial_index_count s = partial_index_count s"

subsection \<open>The build loop (DEVELOPER\_OPTION/build\_index\_disk.py)\<close>

type_synonym document = "string \<times> string list \<times> string list"

fun add_documents ::
  "disk_based_indexer \<Rightarrow> document list \<Rightarrow> py_error + disk_based_indexer" where
  "add_documents s [] = Inr s"
| "add_documents s ((url, tokens, important_tokens) # rest) =
     (case disk_add_document s url tokens important_tokens of
        Inl e \<Rightarrow> Inl e
      | Inr s' \<Rightarrow> add_documents s' rest)"

definition build_index_disk ::
  "directory \<Rightarrow> directory option \<Rightarrow> int \<Rightarrow> document list \<Rightarrow> py_error + disk_based_indexer" where
  "build_index_disk out_files partial_files max_docs docs =
     (case add_documents (new_disk_based_indexer out_files partial_files max_docs) docs of
        Inl e \<Rightarrow> Inl e
      | Inr s \<Rightarrow> finalize s)"

definition ceil_div :: "nat \<Rightarrow> nat \<Rightarrow> nat" where
  "ceil_div n m = (n + m - 1) div m"

section \<open>Tokenizer and query normalisation\<close>

text \<open>
  \<open>Tokenizer.tokenize\<close> lowercases the text and returns the maximal runs of
  \<open>[a-zA-Z0-9]\<close>. The model covers text of ASCII characters, where \<open>str.lower\<close> only
  changes the letters \<open>A\<close> to \<open>Z\<close>.
\<close>

definition is_ascii_alnum :: "char \<Rightarrow> bool" where
  "is_ascii_alnum c =
     (let n = (of_char c :: nat)
      in (48 \<le> n \<and> n \<le> 57) \<or> (65 \<le> n \<and> n \<le> 90) \<or> (97 \<le> n \<and> n \<le> 122))"

definition ascii_lower :: "char \<Rightarrow> char" where
  "ascii_lower c =
     (let n = (of_char c :: nat) in if 65 \<le> n \<and> n \<le> 90 then char_of (n + 32) else c)"

fun findall_alnum :: "string \<Rightarrow> string \<Rightarrow> string list" where
  "findall_alnum cur [] = (if cur = [] then [] else [cur])"
| "findall_alnum cur (c # cs) =
     (if is_ascii_alnum c then findall_alnum (cur @ [c]) cs
      else (if cur = [] then [] else [cur]) @ findall_alnum [] cs)"

definition tokenize :: "string \<Rightarrow> string list" where
  "tokenize text = (if text = [] then [] else findall_alnum [] (map ascii_lower text))"

fun unique_tokens :: "string list \<Rightarrow> string list \<Rightarrow> string list" where
  \<comment> \<open>the loop of \<open>_process_query\<close>; the first argument is \<open>seen\<close>\<close>
  "unique_tokens seen [] = []"
| "unique_tokens seen (token # rest) =
     (if token \<in> set seen then unique_tokens seen rest
      else token # unique_tokens (token # seen) rest)"

section \<open>The M3 search engine (M3/SRC/search\_engine\_m3.py)\<close>

text \<open>
  What the engine takes from outside the repository is a parameter of the model:
  \<^item> \<open>stem\<close>: the Porter stemmer of NLTK;
  \<^item> \<open>py_int\<close>: Python's \<open>int(s)\<close> on a string, \<open>None\<close> where it raises ValueError;
  \<^item> \<open>set_iter\<close>: the order in which Python iterates the set built from the given
    elements (the language leaves it open);
  \<^item> \<open>extract_term_from_json\<close>: what the regular-expression search and \<open>json.loads\<close> of
    \<open>_extract_term_from_json\<close> find for a term in the text of the index file, \<open>None\<close>
    when they find nothing.
  Scores are Python floats; the model computes with real numbers.
\<close>

type_synonym doc_postings = "(int, posting) dict"

record runtime =
  stem :: "string \<Rightarrow> string"
  py_int :: "string \<Rightarrow> int option"
  set_iter :: "int list \<Rightarrow> int list"
  extract_term_from_json :: "string \<Rightarrow> string \<Rightarrow> (string, posting) dict option"

definition valid_set_iter :: "(int list \<Rightarrow> int list) \<Rightarrow> bool" where
  \<comment> \<open>iterating a set visits each of its elements once\<close>
  "valid_set_iter f = (\<forall>xs. set (f xs) = set xs \<and> distinct (f xs))"

record doc_mapping_json =
  json_url_to_id :: "(string, int) dict option"
  json_id_to_url :: "(string, string) dict option"

record index_directory =
  inverted_index_json :: "string option"
  doc_mapping_file :: "doc_mapping_json option"

record m3_search_engine =
  index_file :: "string option"
  url_to_id :: "(string, int) dict"
  id_to_url :: "(int, string) dict"
  total_docs :: nat
  df_cache :: "(string, nat) dict"
  postings_cache :: "(string, doc_postings) dict"
  index_file_size :: nat

definition cache_max_size :: nat where
  "cache_max_size = 500"

fun int_keys ::
  "(string \<Rightarrow> int option) \<Rightarrow> (string, 'v) dict \<Rightarrow> (int, 'v) dict \<Rightarrow> (int, 'v) dict option" where
  \<comment> \<open>\<open>for k, v in d.items(): acc[int(k)] = v\<close>; \<open>None\<close> when an \<open>int(k)\<close> raises\<close>
  "int_keys conv [] acc = Some acc"
| "int_keys conv ((k, v) # rest) acc =
     (case conv k of
        None \<Rightarrow> None
      | Some i \<Rightarrow> int_keys conv rest (AList.update i v acc))"

definition new_m3_search_engine ::
  "runtime \<Rightarrow> index_directory \<Rightarrow> py_error + m3_search_engine" where
  \<comment> \<open>\<open>__init__\<close> followed by \<open>_load_doc_mappings\<close>\<close>
  "new_m3_search_engine rt dir =
     (let size = (case inverted_index_json dir of None \<Rightarrow> 0 | Some content \<Rightarrow> length content)
      in case doc_mapping_file dir of
           None \<Rightarrow> Inl FileNotFoundError
         | Some data \<Rightarrow>
             (case int_keys (py_int rt)
                     (case json_id_to_url data of None \<Rightarrow> [] | Some m \<Rightarrow> m) [] of
                None \<Rightarrow> Inl ValueError
              | Some i2u \<Rightarrow>
                  (let u2i = (case json_url_to_id data of None \<Rightarrow> [] | Some m \<Rightarrow> m)
                   in Inr \<lparr>index_file = inverted_index_json dir,
                           url_to_id = u2i,
                           id_to_url = i2u,
                           total_docs = length u2i,
                           df_cache = [],
                           postings_cache = [],
                           index_file_size = size\<rparr>)))"

definition get_postings_from_disk ::
  "runtime \<Rightarrow> m3_search_engine \<Rightarrow> string \<Rightarrow> doc_postings \<times> m3_search_engine" where
  \<comment> \<open>every exception inside the \<open>try\<close> ends in \<open>return {}\<close>\<close>
  "get_postings_from_disk rt e term =
     (case map_of (postings_cache e) term of
        Some cached \<Rightarrow> (cached, e)
      | None \<Rightarrow>
          (case index_file e of
             None \<Rightarrow> ([], e)
           | Some content \<Rightarrow>
               (case extract_term_from_json rt term content of
                  None \<Rightarrow> ([], e)
                | Some term_data \<Rightarrow>
                    if term_data = [] then ([], e)
                    else (case int_keys (py_int rt) term_data [] of
                            None \<Rightarrow> ([], e)
                          | Some ps \<Rightarrow>
                              (let cache = postings_cache e;
                                   cache' = (if length cache \<ge> cache_max_size
                                             then tl cache else cache)
                               in (ps, e\<lparr>postings_cache := AList.update term ps cache'\<rparr>))))))"

definition get_postings ::
  "runtime \<Rightarrow> m3_search_engine \<Rightarrow> string \<Rightarrow> doc_postings \<times> m3_search_engine" where
  "get_postings rt e term = get_postings_from_disk rt e term"

definition get_document_frequency ::
  "runtime \<Rightarrow> m3_search_engine \<Rightarrow> string \<Rightarrow> nat \<times> m3_search_engine" where
  "get_document_frequency rt e term =
     (case map_of (df_cache e) term of
        Some df \<Rightarrow> (df, e)
      | None \<Rightarrow>
          (let (ps, e') = get_postings rt e term;
               df = length ps
           in (df, e'\<lparr>df_cache := AList.update term df (df_cache e')\<rparr>)))"

definition calculate_enhanced_tf_idf :: "int \<Rightarrow> nat \<Rightarrow> nat \<Rightarrow> bool \<Rightarrow> real" where
  "calculate_enhanced_tf_idf tf_v df n_docs is_imp =
     (if df = 0 \<or> n_docs = 0 then 0
      else let tf_score = (if tf_v > 0 then 1 + ln (real_of_int tf_v) else 0);
               idf_score = ln ((real n_docs + 1) / (real df + 1)) + 1;
               base_score = tf_score * idf_score
           in if is_imp then base_score * 2 else base_score)"

definition process_query :: "runtime \<Rightarrow> string \<Rightarrow> string list" where
  "process_query rt query = unique_tokens [] (map (stem rt) (tokenize query))"

definition fetch_step ::
  "runtime \<Rightarrow> string \<Rightarrow> (string, doc_postings) dict \<times> m3_search_engine
     \<Rightarrow> (string, doc_postings) dict \<times> m3_search_engine" where
  \<comment> \<open>the body of \<open>for term in query_terms\<close> that fills \<open>term_postings\<close>\<close>
  "fetch_step rt term acc =
     (let (term_postings, e1) = acc;
          (ps, e2) = get_postings rt e1 term
      in (if ps \<noteq> [] then AList.update term ps term_postings else term_postings, e2))"

definition fetch_term_postings ::
  "runtime \<Rightarrow> m3_search_engine \<Rightarrow> string list
     \<Rightarrow> (string, doc_postings) dict \<times> m3_search_engine" where
  "fetch_term_postings rt e query_terms = fold (fetch_step rt) query_terms ([], e)"

definition intersect_step ::
  "runtime \<Rightarrow> string \<times> doc_postings \<Rightarrow> int list \<Rightarrow> int list" where
  \<comment> \<open>\<open>candidate_docs = candidate_docs.intersection(set(postings.keys()))\<close>\<close>
  "intersect_step rt entry candidate_docs =
     set_iter rt (filter (\<lambda>d. d \<in> set (map fst (snd entry))) candidate_docs)"

definition intersect_postings :: "runtime \<Rightarrow> (string, doc_postings) dict \<Rightarrow> int list" where
  \<comment> \<open>\<open>sorted\<close> is stable, as \<^const>\<open>sort_key\<close> is; the case of no sorted term is the
      source's \<open>if not sorted_terms: return []\<close>\<close>
  "intersect_postings rt term_postings =
     (case sort_key (\<lambda>x. length (snd x)) term_postings of
        [] \<Rightarrow> []
      | (first_term, first_postings) # rest \<Rightarrow>
          fold (intersect_step rt) rest (set_iter rt (map fst first_postings)))"

definition dfs_step ::
  "runtime \<Rightarrow> (string, doc_postings) dict \<Rightarrow> string
     \<Rightarrow> (string, nat) dict \<times> m3_search_engine \<Rightarrow> (string, nat) dict \<times> m3_search_engine" where
  \<comment> \<open>one entry of the comprehension that builds \<open>term_dfs\<close>\<close>
  "dfs_step rt term_postings term acc =
     (let (term_dfs, e1) = acc
      in if map_of term_postings term \<noteq> None
         then (let (df, e2) = get_document_frequency rt e1 term
               in (AList.update term df term_dfs, e2))
         else (term_dfs, e1))"

definition compute_term_dfs ::
  "runtime \<Rightarrow> m3_search_engine \<Rightarrow> string list \<Rightarrow> (string, doc_postings) dict
     \<Rightarrow> (string, nat) dict \<times> m3_search_engine" where
  "compute_term_dfs rt e query_terms term_postings =
     fold (dfs_step rt term_postings) query_terms ([], e)"

definition score_step ::
  "(string, doc_postings) dict \<Rightarrow> (string, nat) dict \<Rightarrow> nat \<Rightarrow> int \<Rightarrow> string
     \<Rightarrow> real \<times> nat \<Rightarrow> real \<times> nat" where
  \<comment> \<open>the body of \<open>for term in query_terms\<close> that adds up the score of a document\<close>
  "score_step term_postings term_dfs n_docs doc_id term acc =
     (let (score, matching_terms) = acc
      in case map_of term_postings term of
           None \<Rightarrow> (score, matching_terms)
         | Some ps \<Rightarrow>
             (case map_of ps doc_id of
                None \<Rightarrow> (score, matching_terms)
              | Some p \<Rightarrow>
                  (score + calculate_enhanced_tf_idf (tf p)
                             (dict_get term_dfs term 0) n_docs (is_important p),
                   matching_terms + 1)))"

definition score_document ::
  "string list \<Rightarrow> (string, doc_postings) dict \<Rightarrow> (string, nat) dict \<Rightarrow> nat \<Rightarrow> int \<Rightarrow> real" where
  "score_document query_terms term_postings term_dfs n_docs doc_id =
     (let (score, matching_terms) =
            fold (score_step term_postings term_dfs n_docs doc_id) query_terms (0, 0);
          score1 = (if matching_terms = length query_terms then score * 1.15 else score);
          score2 = (if length query_terms > 1
                    then score1 / sqrt (real (length query_terms)) else score1)
      in score2)"

definition py_slice_to :: "int \<Rightarrow> 'a list \<Rightarrow> 'a list" where
  \<comment> \<open>the slice \<open>xs[:k]\<close>: a negative \<open>k\<close> counts from the end\<close>
  "py_slice_to k xs =
     (if k \<ge> 0 then take (nat k) xs else take (nat (int (length xs) + k)) xs)"

definition resolve_urls :: "(int, string) dict \<Rightarrow> (int \<times> real) list \<Rightarrow> (string \<times> real) list" where
  "resolve_urls i2u docs =
     List.map_filter (\<lambda>(doc_id, score).
        case map_of i2u doc_id of None \<Rightarrow> None | Some url \<Rightarrow> Some (url, score)) docs"

text \<open>
  \<open>search_ranked\<close> is \<open>search\<close> up to the assignment of \<open>sorted_docs\<close>; it also returns
  the candidate set in its iteration order. Each early \<open>return []\<close> of the source leaves
  both empty.
\<close>

definition score_all ::
  "string list \<Rightarrow> (string, doc_postings) dict \<Rightarrow> (string, nat) dict \<Rightarrow> nat \<Rightarrow> int list
     \<Rightarrow> (int, real) dict" where
  \<comment> \<open>the loop \<open>for doc_id in candidate_docs\<close> that fills \<open>doc_scores\<close>\<close>
  "score_all query_terms term_postings term_dfs n_docs candidate_docs =
     fold (\<lambda>doc_id doc_scores.
             AList.update doc_id
               (score_document query_terms term_postings term_dfs n_docs doc_id) doc_scores)
          candidate_docs []"

definition search_ranked ::
  "runtime \<Rightarrow> m3_search_engine \<Rightarrow> string
     \<Rightarrow> (int list \<times> (int \<times> real) list) \<times> m3_search_engine" where
  "search_ranked rt e query =
     (let query_terms = process_query rt query
      in if query_terms = [] then (([], []), e)
         else
           let (term_postings, e1) = fetch_term_postings rt e query_terms
           in if term_postings = [] then (([], []), e1)
              else
                let candidate_docs = intersect_postings rt term_postings
                in if candidate_docs = [] then (([], []), e1)
                   else
                     let (term_dfs, e2) = compute_term_dfs rt e1 query_terms term_postings;
                         doc_scores = score_all query_terms term_postings term_dfs
                                        (total_docs e2) candidate_docs;
                         sorted_docs = sort_key (\<lambda>x. - snd x) doc_scores
                     in ((candidate_docs, sorted_docs), e2))"

definition search ::
  "runtime \<Rightarrow> m3_search_engine \<Rightarrow> string \<Rightarrow> int
     \<Rightarrow> (string \<times> real) list \<times> m3_search_engine" where
  "search rt e query top_k =
     (let ((candidate_docs, sorted_docs), e') = search_ranked rt e query
      in (resolve_urls (id_to_url e') (py_slice_to top_k sorted_docs), e'))"

section \<open>Invariants, and the rules of the specification\<close>

definition all_tf_positive :: "index \<Rightarrow> bool" where
  \<comment> \<open>every posting of the index has \<open>tf \<ge> 1\<close>\<close>
  "all_tf_positive idx = (\<forall>(t, ps) \<in> set idx. \<forall>(d, p) \<in> set ps. 1 \<le> tf p)"

definition segments_present :: "disk_based_indexer \<Rightarrow> bool" where
  \<comment> \<open>the segment files \<open>0, \<dots>, partial_index_count - 1\<close> are in the directory\<close>
  "segments_present s =
     (\<exists>d. partial_index_dir s = Some d
        \<and> (\<forall>i < partial_index_count s. \<exists>seg. map_of d (partial_index_name i) = Some (IndexJson seg)))"

definition builder_inv :: "nat \<Rightarrow> disk_based_indexer \<Rightarrow> bool" where
  \<comment> \<open>what holds between the \<open>add_document\<close> calls of a build with threshold \<open>m\<close> whose
      documents all have a token\<close>
  "builder_inv m s =
     (max_docs_in_memory s = int m \<and> docs_in_memory s < m
      \<and> ((index s = []) = (docs_in_memory s = 0)) \<and> segments_present s)"

definition combine_posting :: "posting option \<Rightarrow> posting \<Rightarrow> posting" where
  \<comment> \<open>the posting that \<open>merge_posting\<close> stores\<close>
  "combine_posting existing p =
     (case existing of
        None \<Rightarrow> \<lparr>tf = tf p, is_important = is_important p\<rparr>
      | Some e \<Rightarrow> \<lparr>tf = tf e + tf p, is_important = (is_important e \<or> is_important p)\<rparr>)"

fun present :: "'a option list \<Rightarrow> 'a list" where
  \<comment> \<open>the values that are there\<close>
  "present [] = []"
| "present (None # rest) = present rest"
| "present (Some x # rest) = x # present rest"

text \<open>
  The coalescing rule in the words of the specification: the merged posting of a term and
  a document exists when some segment has one; its \<open>tf\<close> is the sum of the segments'
  \<open>tf\<close>s and its \<open>is_important\<close> is the disjunction of the segments' flags.
\<close>

definition coalesce_spec :: "posting option list \<Rightarrow> posting option" where
  "coalesce_spec found =
     (let ps = present found
      in if ps = [] then None
         else Some \<lparr>tf = sum_list (map tf ps), is_important = list_ex is_important ps\<rparr>)"

text \<open>
  A runtime for the examples: \<open>decimal_int\<close> is \<open>int(s)\<close> on the strings that \<open>str(n)\<close>
  writes for \<open>n \<ge> 0\<close>; \<open>slot_order\<close> is the order in which CPython iterates a set of
  fewer than five small non-negative integers whose residues modulo 8 differ (the table
  has eight slots, the integer \<open>d\<close> sits in slot \<open>d mod 8\<close>, and iteration goes by slot:
  \<open>list({1, 8})\<close> is \<open>[8, 1]\<close>); the stemmer leaves the words of the examples as they
  are; the extraction finds the posting list that the table gives.
\<close>

definition decimal_int :: "string \<Rightarrow> int option" where
  "decimal_int s =
     (if s \<noteq> [] \<and> list_all (\<lambda>c. 48 \<le> (of_char c :: nat) \<and> (of_char c :: nat) \<le> 57) s
      then Some (int (nat_of_digits s)) else None)"

definition slot_order :: "int list \<Rightarrow> int list" where
  "slot_order xs = sort_key (\<lambda>d. d mod 8) (remdups xs)"

definition example_runtime :: "(string, (string, posting) dict) dict \<Rightarrow> runtime" where
  "example_runtime table =
     \<lparr>stem = (\<lambda>w. w), py_int = decimal_int, set_iter = slot_order,
      extract_term_from_json = (\<lambda>term content. map_of table term)\<rparr>"

text \<open>
  What a lookup reads from the index file when nothing is cached, and the consistency of
  the two caches with the file: the engine only ever caches what it read.
\<close>

definition disk_postings :: "runtime \<Rightarrow> string option \<Rightarrow> string \<Rightarrow> doc_postings" where
  "disk_postings rt file term =
     (case file of
        None \<Rightarrow> []
      | Some content \<Rightarrow>
          (case extract_term_from_json rt term content of
             None \<Rightarrow> []
           | Some term_data \<Rightarrow>
               (case int_keys (py_int rt) term_data [] of None \<Rightarrow> [] | Some ps \<Rightarrow> ps)))"

definition caches_consistent :: "runtime \<Rightarrow> m3_search_engine \<Rightarrow> bool" where
  "caches_consistent rt e =
     ((\<forall>(term, ps) \<in> set (postings_cache e). ps = disk_postings rt (index_file e) term)
      \<and> (\<forall>(term, df) \<in> set (df_cache e). df = length (disk_postings rt (index_file e) term)))"

definition same_index :: "m3_search_engine \<Rightarrow> m3_search_engine \<Rightarrow> bool" where
  \<comment> \<open>a lookup changes the caches only\<close>
  "same_index e e' =
     (index_file e' = index_file e \<and> id_to_url e' = id_to_url e \<and> total_docs e' = total_docs e)"

definition pure_fetch_step ::
  "runtime \<Rightarrow> string option \<Rightarrow> string \<Rightarrow> (string, doc_postings) dict
     \<Rightarrow> (string, doc_postings) dict" where
  \<comment> \<open>\<open>fetch_step\<close> without the caches\<close>
  "pure_fetch_step rt file term term_postings =
     (let ps = disk_postings rt file term
      in if ps \<noteq> [] then AList.update term ps term_postings else term_postings)"

definition pure_term_postings ::
  "runtime \<Rightarrow> string option \<Rightarrow> string list \<Rightarrow> (string, doc_postings) dict
     \<Rightarrow> (string, doc_postings) dict" where
  \<comment> \<open>\<open>term_postings\<close> as \<open>search\<close> builds it from consistent caches\<close>
  "pure_term_postings rt file query_terms acc = fold (pure_fetch_step rt file) query_terms acc"

text \<open>
  The scoring formula in the words of the specification, over a posting reader
  \<open>postings\<close>, the document count \<open>n_docs\<close> and the deduplicated query terms.
\<close>

definition boost :: "posting \<Rightarrow> real" where
  "boost p = (if is_important p then 2 else 1)"

definition tf_weight :: "posting \<Rightarrow> real" where
  "tf_weight p = (if tf p > 0 then 1 + ln (real_of_int (tf p)) else 0)"

definition idf :: "nat \<Rightarrow> nat \<Rightarrow> real" where
  "idf n_docs df = ln ((real n_docs + 1) / (real df + 1)) + 1"

definition term_weight :: "nat \<Rightarrow> doc_postings \<Rightarrow> int \<Rightarrow> real" where
  \<comment> \<open>\<open>boost(t,d) \<cdot> tf_weight(t,d) \<cdot> idf(t)\<close> for the posting list of \<open>t\<close>; \<open>df(t)\<close> is its length\<close>
  "term_weight n_docs ps doc_id =
     (case map_of ps doc_id of
        None \<Rightarrow> 0
      | Some p \<Rightarrow> boost p * tf_weight p * idf n_docs (length ps))"

definition spec_score :: "(string \<Rightarrow> doc_postings) \<Rightarrow> nat \<Rightarrow> string list \<Rightarrow> int \<Rightarrow> real" where
  \<comment> \<open>the score as claim C2 states it: \<open>q'\<close> counts the query terms whose list has the document\<close>
  "spec_score postings n_docs query_terms doc_id =
     (let matched = filter (\<lambda>t. doc_id \<in> fst ` set (postings t)) query_terms
      in 1.15 * (1 / sqrt (real (length matched)))
           * sum_list (map (\<lambda>t. term_weight n_docs (postings t) doc_id) matched))"

definition code_score :: "(string \<Rightarrow> doc_postings) \<Rightarrow> nat \<Rightarrow> string list \<Rightarrow> int \<Rightarrow> real" where
  \<comment> \<open>the score as the code computes it for a candidate: the bonus needs every query term
      to have postings, the normalisation counts all query terms, and every term
      contributes 0 when the document count is 0\<close>
  "code_score postings n_docs query_terms doc_id =
     (let found = filter (\<lambda>t. postings t \<noteq> []) query_terms
      in (if length found = length query_terms then 1.15 else 1)
           * (1 / sqrt (real (length query_terms)))
           * sum_list (map (\<lambda>t. if n_docs = 0 then 0
                                  else term_weight n_docs (postings t) doc_id) found))"

text \<open>
  Two small indexes for the examples. In the first, document 0 (\<open>u0\<close>) contains \<open>dog\<close>
  once and no document contains \<open>zzz\<close>: the index file maps \<open>dog\<close> to the posting list
  with the key \<open>0\<close>. In the second, documents 1 and 8 contain \<open>cat\<close> once each: the index
  file maps \<open>cat\<close> to the posting list with the keys \<open>1\<close> and \<open>8\<close>, in this order. The
  Porter stemmer leaves \<open>dog\<close>, \<open>cat\<close> and \<open>zzz\<close> as they are.
\<close>

definition dog_table :: "(string, (string, posting) dict) dict" where
  "dog_table = [(''dog'', [(''0'', \<lparr>tf = 1, is_important = False\<rparr>)])]"

definition dog_engine :: m3_search_engine where
  "dog_engine =
     \<lparr>index_file = Some ''index'',
      url_to_id = [(''u0'', 0)],
      id_to_url = [(0, ''u0'')],
      total_docs = 1, df_cache = [], postings_cache = [], index_file_size = 5\<rparr>"

definition cat_table :: "(string, (string, posting) dict) dict" where
  "cat_table = [(''cat'', [(''1'', \<lparr>tf = 1, is_important = False\<rparr>),
                           (''8'', \<lparr>tf = 1, is_important = False\<rparr>)])]"

definition cat_engine :: m3_search_engine where
  "cat_engine =
     \<lparr>index_file = Some ''index'',
      url_to_id = [(''u1'', 1), (''u8'', 8)],
      id_to_url = [(1, ''u1''), (8, ''u8'')],
      total_docs = 2, df_cache = [], postings_cache = [], index_file_size = 5\<rparr>"

definition cat_engine_unmapped :: m3_search_engine where
  \<comment> \<open>the second example index with a document mapping that lacks document 8\<close>
  "cat_engine_unmapped = cat_engine\<lparr>id_to_url := [(1, ''u1'')]\<rparr>"

definition ties_by_doc_id :: "(int \<times> real) list \<Rightarrow> bool" where
  \<comment> \<open>the tie-break of claim C5: among equal scores, ascending document identifiers\<close>
  "ties_by_doc_id ranked = sorted_wrt (\<lambda>a b. snd a = snd b \<longrightarrow> fst a \<le> fst b) ranked"

section \<open>Properties\<close>

subsection \<open>C3: the posting stored by add\_document\<close>

lemma dict_get_update:
  "dict_get (AList.update k v d) k' dflt = (if k' = k then v else dict_get d k' dflt)"
  by (simp add: dict_get_def update_conv')

lemma count_tokens_fold:
  "dict_get (fold (\<lambda>token counts. AList.update token (dict_get counts token 0 + 1) counts) ts acc) t 0
     = dict_get acc t 0 + int (count_list ts t)"
  by (induction ts arbitrary: acc) (auto simp: dict_get_update)

lemma dict_get_count_tokens: "dict_get (count_tokens ts) t 0 = int (count_list ts t)"
  by (simp add: count_tokens_def count_tokens_fold) (simp add: dict_get_def)

lemma lookup_set_posting:
  "lookup_posting (set_posting idx t d p) t' d' =
     (if t' = t \<and> d' = d then Some p else lookup_posting idx t' d')"
  by (auto simp: lookup_posting_def set_posting_def update_conv' dict_get_def split: option.splits)

lemma lookup_fold_set_posting:
  "lookup_posting (fold (\<lambda>token acc. set_posting acc token d (P token)) ts idx) t d' =
     (if d' = d \<and> t \<in> set ts then Some (P t) else lookup_posting idx t d')"
  by (induction ts arbitrary: idx) (auto simp: lookup_set_posting)

lemma count_list_pos_iff: "(0 < count_list ts t) = (t \<in> set ts)"
  using count_list_0_iff [of ts t] by auto

lemma lookup_index_tokens:
  "lookup_posting (index_tokens idx d toks imps) t d' =
     (if d' = d \<and> t \<in> set toks \<union> set imps
      then Some \<lparr>tf = int (count_list toks t) + int (count_list imps t),
                 is_important = (t \<in> set imps)\<rparr>
      else lookup_posting idx t d')"
  unfolding index_tokens_def Let_def
  by (simp only: lookup_fold_set_posting dict_get_count_tokens set_remdups set_append)
     (auto simp: count_list_pos_iff)

lemma get_or_create_doc_id_maps:
  "map_of (doc_ids (snd (get_or_create_doc_id s url))) url = Some (fst (get_or_create_doc_id s url))"
  by (simp add: get_or_create_doc_id_def update_conv' split: option.splits)

lemma get_or_create_doc_id_index [simp]:
  "index (snd (get_or_create_doc_id s url)) = index s"
  by (simp add: get_or_create_doc_id_def split: option.splits)

lemma add_document_index:
  "index (add_document s url toks imps) =
     index_tokens (index s) (fst (get_or_create_doc_id s url)) toks imps"
  by (simp add: add_document_def split_beta Let_def)

lemma add_document_doc_ids:
  "doc_ids (add_document s url toks imps) = doc_ids (snd (get_or_create_doc_id s url))"
  by (simp add: add_document_def split_beta Let_def)

lemma add_document_more [simp]:
  "docs_in_memory (add_document s url toks imps) = docs_in_memory s"
  "max_docs_in_memory (add_document s url toks imps) = max_docs_in_memory s"
  "partial_index_count (add_document s url toks imps) = partial_index_count s"
  "partial_index_dir (add_document s url toks imps) = partial_index_dir s"
  "output_dir (add_document s url toks imps) = output_dir s"
  by (simp_all add: add_document_def get_or_create_doc_id_def split_beta Let_def split: option.splits)

lemma partial_names_differ [simp]: "partial_index_name i \<noteq> partial_mapping_name j"
  by (simp add: partial_index_name_def partial_mapping_name_def)

lemma index_tokens_nonempty:
  "t \<in> set toks \<union> set imps \<Longrightarrow> index_tokens idx d toks imps \<noteq> []"
proof
  assume t: "t \<in> set toks \<union> set imps" and e: "index_tokens idx d toks imps = []"
  have "lookup_posting (index_tokens idx d toks imps) t d \<noteq> None"
    using t by (simp add: lookup_index_tokens)
  with e show False by (simp add: lookup_posting_def)
qed

lemma set_update_cases:
  "x \<in> set (AList.update k v al) \<Longrightarrow> x = (k, v) \<or> x \<in> set al"
  by (induction al) (auto split: if_splits)

lemma all_tf_positive_set_posting:
  assumes "all_tf_positive idx" "1 \<le> tf p"
  shows "all_tf_positive (set_posting idx t d p)"
  unfolding all_tf_positive_def
proof (intro ballI, clarify)
  fix t' ps d' p'
  assume a: "(t', ps) \<in> set (set_posting idx t d p)" and b: "(d', p') \<in> set ps"
  from a have "(t', ps) = (t, AList.update d p (dict_get idx t [])) \<or> (t', ps) \<in> set idx"
    unfolding set_posting_def by (rule set_update_cases)
  then show "1 \<le> tf p'"
  proof
    assume "(t', ps) \<in> set idx"
    with assms(1) b show ?thesis by (auto simp: all_tf_positive_def)
  next
    assume eq: "(t', ps) = (t, AList.update d p (dict_get idx t []))"
    with b have "(d', p') = (d, p) \<or> (d', p') \<in> set (dict_get idx t [])"
      by (auto dest: set_update_cases)
    then show ?thesis
    proof
      assume "(d', p') = (d, p)" with assms(2) show ?thesis by simp
    next
      assume m: "(d', p') \<in> set (dict_get idx t [])"
      then obtain qs where "map_of idx t = Some qs" "(d', p') \<in> set qs"
        by (cases "map_of idx t") (auto simp: dict_get_def)
      then have "(t, qs) \<in> set idx" by (auto dest: map_of_SomeD)
      with assms(1) \<open>(d', p') \<in> set qs\<close> show ?thesis by (auto simp: all_tf_positive_def)
    qed
  qed
qed

lemma all_tf_positive_fold:
  assumes "all_tf_positive idx" "\<And>t. t \<in> set ts \<Longrightarrow> 1 \<le> tf (P t)"
  shows "all_tf_positive (fold (\<lambda>token acc. set_posting acc token d (P token)) ts idx)"
  using assms by (induction ts arbitrary: idx) (auto intro: all_tf_positive_set_posting)

lemma all_tf_positive_index_tokens:
  assumes "all_tf_positive idx"
  shows "all_tf_positive (index_tokens idx d toks imps)"
  unfolding index_tokens_def Let_def
proof (rule all_tf_positive_fold [OF assms])
  fix t assume "t \<in> set (remdups (toks @ imps))"
  then have "t \<in> set toks \<or> t \<in> set imps" by simp
  then have "0 < count_list toks t \<or> 0 < count_list imps t" by (simp add: count_list_pos_iff)
  then show "1 \<le> tf \<lparr>tf = dict_get (count_tokens toks) t 0 + dict_get (count_tokens imps) t 0,
       is_important = (t \<in> set imps \<or> 0 < dict_get (count_tokens imps) t 0)\<rparr>"
    by (simp add: dict_get_count_tokens) linarith
qed

lemma offload_to_disk_nonempty:
  assumes "index s \<noteq> []" "partial_index_dir s = Some d"
  shows "offload_to_disk s =
     Inr (s\<lparr>partial_index_dir :=
                Some (AList.update (partial_mapping_name (partial_index_count s))
                        (MappingJson (doc_ids s) (doc_id_to_url s))
                        (AList.update (partial_index_name (partial_index_count s))
                           (IndexJson (index s)) d)),
              partial_index_count := partial_index_count s + 1,
              index := [],
              docs_in_memory := 0\<rparr>)"
  using assms by (simp add: offload_to_disk_def Let_def)

text \<open>
  Claim C3. After \<open>add_document(url, body_tokens, important_tokens)\<close>, for every term of
  either token list, the posting stored for the term and the document identifier of
  \<open>url\<close> has \<open>tf\<close> equal to the occurrences in \<open>body_tokens\<close> plus the occurrences in
  \<open>important_tokens\<close>, and \<open>is_important\<close> true iff the term occurs in
  \<open>important_tokens\<close>; so \<open>tf \<ge> 1\<close>, and an index whose postings all have \<open>tf \<ge> 1\<close>
  keeps that property. This holds for \<open>InvertedIndex\<close> and for \<open>DiskBasedIndexer\<close>;
  for the latter the posting is in the accumulator when the call did not reach the
  threshold, and in the segment file the call wrote when it did.
\<close>

theorem add_document_stores_posting:
  assumes "t \<in> set tokens \<union> set important_tokens"
  shows
    "let p = \<lparr>tf = int (count_list tokens t) + int (count_list important_tokens t),
              is_important = (t \<in> set important_tokens)\<rparr>;
         s' = add_document (s :: inverted_index) url tokens important_tokens
     in 1 \<le> tf p
      \<and> (\<exists>d. map_of (doc_ids s') url = Some d \<and> lookup_posting (index s') t d = Some p)
      \<and> (all_tf_positive (index s) \<longrightarrow> all_tf_positive (index s'))
      \<and> (partial_index_dir ds \<noteq> None \<longrightarrow>
           (\<exists>ds' d. disk_add_document ds url tokens important_tokens = Inr ds'
              \<and> map_of (doc_ids ds') url = Some d
              \<and> (all_tf_positive (index ds) \<longrightarrow> all_tf_positive (index ds'))
              \<and> (if int (docs_in_memory ds) + 1 < max_docs_in_memory ds
                  then lookup_posting (index ds') t d = Some p
                  else \<exists>dir seg. partial_index_dir ds' = Some dir
                         \<and> map_of dir (partial_index_name (partial_index_count ds))
                             = Some (IndexJson seg)
                         \<and> lookup_posting seg t d = Some p)))"
proof -
  define p where "p = \<lparr>tf = int (count_list tokens t) + int (count_list important_tokens t),
              is_important = (t \<in> set important_tokens)\<rparr>"
  have pos: "1 \<le> tf p"
  proof -
    from assms have "0 < count_list tokens t \<or> 0 < count_list important_tokens t"
      by (simp add: count_list_pos_iff)
    then show ?thesis unfolding p_def by simp linarith
  qed
  have look: "lookup_posting (index (add_document x url tokens important_tokens)) t
                (fst (get_or_create_doc_id x url)) = Some p"
    for x :: "'a inverted_index_scheme"
    using assms by (simp add: add_document_index lookup_index_tokens p_def)
  have ids: "map_of (doc_ids (add_document x url tokens important_tokens)) url
               = Some (fst (get_or_create_doc_id x url))"
    for x :: "'a inverted_index_scheme"
    by (simp add: add_document_doc_ids get_or_create_doc_id_maps)
  have inv: "all_tf_positive (index x) \<Longrightarrow>
               all_tf_positive (index (add_document x url tokens important_tokens))"
    for x :: "'a inverted_index_scheme"
    by (simp add: add_document_index all_tf_positive_index_tokens)
  have ne: "index (add_document x url tokens important_tokens) \<noteq> []"
    for x :: "'a inverted_index_scheme"
    using assms by (simp add: add_document_index index_tokens_nonempty)
  have disk: "\<exists>ds' d. disk_add_document ds url tokens important_tokens = Inr ds'
              \<and> map_of (doc_ids ds') url = Some d
              \<and> (all_tf_positive (index ds) \<longrightarrow> all_tf_positive (index ds'))
              \<and> (if int (docs_in_memory ds) + 1 < max_docs_in_memory ds
                  then lookup_posting (index ds') t d = Some p
                  else \<exists>dir seg. partial_index_dir ds' = Some dir
                         \<and> map_of dir (partial_index_name (partial_index_count ds))
                             = Some (IndexJson seg)
                         \<and> lookup_posting seg t d = Some p)"
    if dir: "partial_index_dir ds \<noteq> None"
  proof -
    from dir obtain dr where dr: "partial_index_dir ds = Some dr" by auto
    let ?s1 = "add_document ds url tokens important_tokens"
    let ?s2 = "?s1\<lparr>docs_in_memory := docs_in_memory ?s1 + 1\<rparr>"
    show ?thesis
    proof (cases "int (docs_in_memory ds) + 1 < max_docs_in_memory ds")
      case True
      then have "disk_add_document ds url tokens important_tokens = Inr ?s2"
        by (simp add: disk_add_document_def Let_def)
      with True look [of ds] ids [of ds] inv [of ds] show ?thesis by simp
    next
      case False
      have "index ?s2 \<noteq> []" using ne [of ds] by simp
      moreover have "partial_index_dir ?s2 = Some dr" using dr by simp
      ultimately have off: "offload_to_disk ?s2 = Inr (?s2\<lparr>partial_index_dir :=
                Some (AList.update (partial_mapping_name (partial_index_count ?s2))
                        (MappingJson (doc_ids ?s2) (doc_id_to_url ?s2))
                        (AList.update (partial_index_name (partial_index_count ?s2))
                           (IndexJson (index ?s2)) dr)),
              partial_index_count := partial_index_count ?s2 + 1,
              index := [],
              docs_in_memory := 0\<rparr>)"
        by (rule offload_to_disk_nonempty)
      from False have "disk_add_document ds url tokens important_tokens = offload_to_disk ?s2"
        by (simp add: disk_add_document_def Let_def)
      with off False look [of ds] ids [of ds] show ?thesis
        by (simp add: update_conv' all_tf_positive_def)
    qed
  qed
  show ?thesis
    unfolding Let_def p_def [symmetric]
    using pos look [of s] ids [of s] inv [of s] disk by blast
qed

lemma format_03d_small:
  "format_03d 0 = ''000''" "format_03d 1 = ''001''" "format_03d 2 = ''002''"
  by code_simp+

lemma partial_index_name_0: "partial_index_name 0 = ''partial_index_000.json''"
  by (simp add: partial_index_name_def format_03d_small)

text \<open>
  The theorem at the document \<open>cat dog\<close> with important text \<open>cat\<close>, on a fresh index and
  on a fresh disk-based indexer with threshold 1 (the call spills).
\<close>

theorem add_document_stores_posting_witness:
  "''cat'' \<in> set [''cat'', ''dog''] \<union> set [''cat'']
   \<and> lookup_posting (index (add_document new_inverted_index ''u'' [''cat'', ''dog''] [''cat'']))
        ''cat'' 0 = Some \<lparr>tf = 2, is_important = True\<rparr>
   \<and> (\<exists>ds' dir seg.
         disk_add_document (new_disk_based_indexer [] None 1) ''u'' [''cat'', ''dog''] [''cat'']
           = Inr ds'
         \<and> partial_index_dir ds' = Some dir
         \<and> map_of dir ''partial_index_000.json'' = Some (IndexJson seg)
         \<and> lookup_posting seg ''cat'' 0 = Some \<lparr>tf = 2, is_important = True\<rparr>)"
proof -
  have h: "''cat'' \<in> set [''cat'', ''dog''] \<union> set [''cat'']" by simp
  have ids: "map_of (doc_ids (add_document new_inverted_index ''u'' [''cat'', ''dog''] [''cat'']))
               ''u'' = Some 0"
    by (simp add: add_document_doc_ids get_or_create_doc_id_def new_inverted_index_def)
  have dir: "partial_index_dir (new_disk_based_indexer [] None 1) \<noteq> None"
    by (simp add: new_disk_based_indexer_def)
  have ids2: "disk_add_document (new_disk_based_indexer [] None 1) ''u'' [''cat'', ''dog''] [''cat'']
               = Inr ds' \<Longrightarrow> map_of (doc_ids ds') ''u'' = Some 0" for ds'
    by (auto simp: disk_add_document_def Let_def offload_to_disk_def add_document_doc_ids
          get_or_create_doc_id_def new_disk_based_indexer_def split: if_splits option.splits)
  from add_document_stores_posting [OF h, where s = new_inverted_index and url = "''u''"
         and ds = "new_disk_based_indexer [] None 1"] dir
  show ?thesis
    using ids ids2
    by (simp add: Let_def new_disk_based_indexer_def partial_index_name_0) force
qed

subsection \<open>C10: a document without tokens\<close>

lemma index_tokens_empty [simp]: "index_tokens idx d [] [] = idx"
  by (simp add: index_tokens_def count_tokens_def)

lemma add_document_empty_new:
  assumes "map_of (doc_ids s) url = None"
  shows "add_document s url [] [] =
           s\<lparr>doc_ids := AList.update url (next_doc_id s) (doc_ids s),
             doc_id_to_url := AList.update (next_doc_id s) url (doc_id_to_url s),
             next_doc_id := next_doc_id s + 1\<rparr>"
  using assms by (simp add: add_document_def get_or_create_doc_id_def)

lemma build_one_empty_document:
  "\<exists>s'. build_index_disk [] None 10 [(''u'', [], [])] = Inr s'
      \<and> get_num_documents s' = 1
      \<and> map_of (output_dir s') ''doc_mapping.json'' = Some (MappingJson [(''u'', 0)] [(0, ''u'')])
      \<and> map_of (output_dir s') ''inverted_index.json'' = Some (IndexJson [])"
  by (simp add: build_index_disk_def new_disk_based_indexer_def disk_add_document_def
        add_document_def get_or_create_doc_id_def finalize_def merge_partial_indexes_def
        save_final_index_def save_final_index_from_dict_def save_doc_mappings_def
        dict_update_all_def get_num_documents_def Let_def)

text \<open>
  Claim C10. \<open>add_document\<close> with both token lists empty and a new URL still assigns the
  next document identifier, records the URL in both mappings and increments the document
  counter, and inserts no posting: the accumulator is the one before the call (written to
  a segment and cleared when the counter reached the threshold with a non-empty
  accumulator). So a build can report a document and map its identifier while the final
  index has no posting for it: the build of one such document reports one document, maps
  identifier 0, and writes an empty index.
\<close>

theorem add_document_without_tokens:
  assumes "map_of (doc_ids ds) url = None" and "partial_index_dir ds \<noteq> None"
  shows
    "(\<exists>ds'. disk_add_document ds url [] [] = Inr ds'
        \<and> map_of (doc_ids ds') url = Some (next_doc_id ds)
        \<and> map_of (doc_id_to_url ds') (next_doc_id ds) = Some url
        \<and> next_doc_id ds' = next_doc_id ds + 1
        \<and> (if int (docs_in_memory ds) + 1 < max_docs_in_memory ds \<or> index ds = []
            then index ds' = index ds \<and> docs_in_memory ds' = docs_in_memory ds + 1
               \<and> partial_index_dir ds' = partial_index_dir ds
               \<and> partial_index_count ds' = partial_index_count ds
            else index ds' = [] \<and> docs_in_memory ds' = 0
               \<and> partial_index_count ds' = partial_index_count ds + 1
               \<and> (\<exists>dir. partial_index_dir ds' = Some dir
                     \<and> map_of dir (partial_index_name (partial_index_count ds))
                         = Some (IndexJson (index ds)))))
     \<and> (\<exists>s'. build_index_disk [] None 10 [(''u'', [], [])] = Inr s'
          \<and> get_num_documents s' = 1
          \<and> map_of (output_dir s') ''doc_mapping.json''
              = Some (MappingJson [(''u'', 0)] [(0, ''u'')])
          \<and> map_of (output_dir s') ''inverted_index.json'' = Some (IndexJson []))"
proof -
  from assms(2) obtain dr where dr: "partial_index_dir ds = Some dr" by auto
  let ?s1 = "add_document ds url [] []"
  let ?s2 = "?s1\<lparr>docs_in_memory := docs_in_memory ?s1 + 1\<rparr>"
  have s1: "?s1 = ds\<lparr>doc_ids := AList.update url (next_doc_id ds) (doc_ids ds),
             doc_id_to_url := AList.update (next_doc_id ds) url (doc_id_to_url ds),
             next_doc_id := next_doc_id ds + 1\<rparr>"
    using assms(1) by (rule add_document_empty_new)
  have first: "\<exists>ds'. disk_add_document ds url [] [] = Inr ds'
        \<and> map_of (doc_ids ds') url = Some (next_doc_id ds)
        \<and> map_of (doc_id_to_url ds') (next_doc_id ds) = Some url
        \<and> next_doc_id ds' = next_doc_id ds + 1
        \<and> (if int (docs_in_memory ds) + 1 < max_docs_in_memory ds \<or> index ds = []
            then index ds' = index ds \<and> docs_in_memory ds' = docs_in_memory ds + 1
               \<and> partial_index_dir ds' = partial_index_dir ds
               \<and> partial_index_count ds' = partial_index_count ds
            else index ds' = [] \<and> docs_in_memory ds' = 0
               \<and> partial_index_count ds' = partial_index_count ds + 1
               \<and> (\<exists>dir. partial_index_dir ds' = Some dir
                     \<and> map_of dir (partial_index_name (partial_index_count ds))
                         = Some (IndexJson (index ds))))"
  proof (cases "int (docs_in_memory ds) + 1 < max_docs_in_memory ds \<or> index ds = []")
    case True
    then have "disk_add_document ds url [] [] = Inr ?s2"
      by (auto simp: disk_add_document_def Let_def offload_to_disk_def s1)
    with True show ?thesis by (simp add: s1 update_conv')
  next
    case False
    then have "disk_add_document ds url [] [] = offload_to_disk ?s2"
      by (simp add: disk_add_document_def Let_def)
    moreover have "index ?s2 \<noteq> []" using False by (simp add: s1)
    moreover have "partial_index_dir ?s2 = Some dr" using dr by (simp add: s1)
    ultimately show ?thesis
      using False by (simp add: offload_to_disk_nonempty s1 update_conv')
  qed
  show ?thesis using first build_one_empty_document by blast
qed

text \<open>The theorem at a fresh indexer with threshold 10 and the URL \<open>u\<close>.\<close>

theorem add_document_without_tokens_witness:
  "map_of (doc_ids (new_disk_based_indexer [] None 10)) ''u'' = None
   \<and> partial_index_dir (new_disk_based_indexer [] None 10) \<noteq> None
   \<and> (\<exists>ds'. disk_add_document (new_disk_based_indexer [] None 10) ''u'' [] [] = Inr ds'
         \<and> map_of (doc_ids ds') ''u'' = Some 0
         \<and> map_of (doc_id_to_url ds') 0 = Some ''u''
         \<and> next_doc_id ds' = 1
         \<and> index ds' = [] \<and> docs_in_memory ds' = 1)"
proof -
  have h1: "map_of (doc_ids (new_disk_based_indexer [] None 10)) ''u'' = None"
    by (simp add: new_disk_based_indexer_def)
  have h2: "partial_index_dir (new_disk_based_indexer [] None 10) \<noteq> None"
    by (simp add: new_disk_based_indexer_def)
  from add_document_without_tokens [OF h1 h2] h1 h2 show ?thesis
    by (auto simp: new_disk_based_indexer_def)
qed

subsection \<open>C6: spilling at the threshold\<close>

lemma of_char_digit_char: "d < 10 \<Longrightarrow> (of_char (digit_char d) :: nat) = 48 + d"
  by (simp add: digit_char_def)

lemma nat_of_digits_snoc:
  "nat_of_digits (s @ [c]) = 10 * nat_of_digits s + (of_char c - 48)"
  by (simp add: nat_of_digits_def)

lemma nat_of_digits_str_nat: "nat_of_digits (str_nat n) = n"
proof (induction n rule: str_nat.induct)
  case (1 n)
  show ?case
  proof (cases "n < 10")
    case True
    then show ?thesis
      by (subst str_nat.simps) (simp add: nat_of_digits_def of_char_digit_char)
  next
    case False
    with 1 have ih: "nat_of_digits (str_nat (n div 10)) = n div 10" by simp
    have "str_nat n = str_nat (n div 10) @ [digit_char (n mod 10)]"
      using False by (subst str_nat.simps) simp
    then show ?thesis
      by (simp add: nat_of_digits_snoc ih of_char_digit_char)
  qed
qed

lemma nat_of_digits_zeros: "nat_of_digits (replicate k (CHR ''0'') @ s) = nat_of_digits s"
proof -
  have "foldl (\<lambda>acc c. 10 * acc + (of_char c - 48)) 0 (replicate k (CHR ''0'')) = (0::nat)"
    by (induction k) simp_all
  then show ?thesis by (simp add: nat_of_digits_def)
qed

lemma nat_of_digits_format_03d: "nat_of_digits (format_03d n) = n"
  by (simp add: format_03d_def nat_of_digits_zeros nat_of_digits_str_nat)

lemma format_03d_inj: "format_03d i = format_03d j \<Longrightarrow> i = j"
  using nat_of_digits_format_03d by metis

lemma length_format_03d: "3 \<le> length (format_03d n)"
  by (simp add: format_03d_def)

lemma partial_index_name_inj: "partial_index_name i = partial_index_name j \<Longrightarrow> i = j"
  by (simp add: partial_index_name_def format_03d_inj)

lemma partial_mapping_name_inj: "partial_mapping_name i = partial_mapping_name j \<Longrightarrow> i = j"
  by (simp add: partial_mapping_name_def format_03d_inj)

lemma fold_set_posting_nonempty:
  "ts \<noteq> [] \<or> idx \<noteq> [] \<Longrightarrow> fold (\<lambda>token acc. set_posting acc token d (P token)) ts idx \<noteq> []"
proof (induction ts arbitrary: idx)
  case Nil then show ?case by simp
next
  case (Cons t ts)
  have "set_posting idx t d (P t) \<noteq> []" by (simp add: set_posting_def)
  then show ?case using Cons.IH [of "set_posting idx t d (P t)"] by simp
qed

lemma index_tokens_nonempty_iff:
  "(index_tokens idx d toks imps = []) = (idx = [] \<and> toks = [] \<and> imps = [])"
proof (cases "toks = [] \<and> imps = []")
  case True then show ?thesis by simp
next
  case False
  then have "remdups (toks @ imps) \<noteq> []" by simp
  then have "index_tokens idx d toks imps \<noteq> []"
    unfolding index_tokens_def Let_def by (intro fold_set_posting_nonempty) simp
  with False show ?thesis by simp
qed

text \<open>
  Claim C6 says that after every \<open>add_document\<close> call the document counter is strictly
  below the threshold. It is not: \<open>_offload_to_disk\<close> returns at once when the
  accumulator is empty, before it writes a file or resets the counter. With threshold 1,
  adding a document without tokens to a fresh indexer leaves the counter at 1, writes no
  segment and leaves the segment count at 0.
\<close>

theorem counter_below_threshold_counterexample:
  "\<exists>ds'. disk_add_document (new_disk_based_indexer [] None 1) ''u'' [] [] = Inr ds'
      \<and> \<not> int (docs_in_memory ds') < max_docs_in_memory ds'
      \<and> docs_in_memory ds' = 1
      \<and> partial_index_count ds' = 0
      \<and> partial_index_dir ds' = Some []"
  by (simp add: disk_add_document_def new_disk_based_indexer_def add_document_def
        get_or_create_doc_id_def offload_to_disk_def Let_def)

text \<open>
  Claim C6, amended. With a positive threshold, whenever the accumulator is not empty
  once the document is added (the document has a token, or the accumulator had a
  posting), a call that brings the counter to the threshold spills: it writes the
  accumulator to the segment file \<open>partial_index_NNN.json\<close> and the document mappings
  to \<open>partial_mapping_NNN.json\<close>, where \<open>NNN\<close> is the segment count in at least three
  digits, a name no earlier segment of the build has; it leaves every other file as it
  was, clears the accumulator, resets the counter to zero and increments the segment
  count. After such a call the counter is strictly below the threshold.
\<close>

theorem spill_when_threshold_reached:
  assumes "0 < max_docs_in_memory ds"
    and "partial_index_dir ds = Some dir"
    and "tokens \<noteq> [] \<or> important_tokens \<noteq> [] \<or> index ds \<noteq> []"
  shows
    "\<exists>ds'. disk_add_document ds url tokens important_tokens = Inr ds'
       \<and> int (docs_in_memory ds') < max_docs_in_memory ds'
       \<and> (if int (docs_in_memory ds) + 1 < max_docs_in_memory ds
           then docs_in_memory ds' = docs_in_memory ds + 1
              \<and> index ds' = index (add_document ds url tokens important_tokens)
              \<and> partial_index_count ds' = partial_index_count ds
              \<and> partial_index_dir ds' = Some dir
           else index ds' = [] \<and> docs_in_memory ds' = 0
              \<and> partial_index_count ds' = partial_index_count ds + 1
              \<and> (\<exists>dir'. partial_index_dir ds' = Some dir'
                    \<and> map_of dir' (partial_index_name (partial_index_count ds))
                        = Some (IndexJson (index (add_document ds url tokens important_tokens)))
                    \<and> map_of dir' (partial_mapping_name (partial_index_count ds))
                        = Some (MappingJson
                                  (doc_ids (add_document ds url tokens important_tokens))
                                  (doc_id_to_url (add_document ds url tokens important_tokens)))
                    \<and> (\<forall>name. name \<noteq> partial_index_name (partial_index_count ds)
                               \<and> name \<noteq> partial_mapping_name (partial_index_count ds)
                               \<longrightarrow> map_of dir' name = map_of dir name))
              \<and> partial_index_name (partial_index_count ds)
                   = ''partial_index_'' @ format_03d (partial_index_count ds) @ ''.json''
              \<and> 3 \<le> length (format_03d (partial_index_count ds))
              \<and> (\<forall>i. i < partial_index_count ds
                       \<longrightarrow> partial_index_name i \<noteq> partial_index_name (partial_index_count ds)))"
proof -
  let ?s1 = "add_document ds url tokens important_tokens"
  let ?s2 = "?s1\<lparr>docs_in_memory := docs_in_memory ?s1 + 1\<rparr>"
  show ?thesis
  proof (cases "int (docs_in_memory ds) + 1 < max_docs_in_memory ds")
    case True
    then have "disk_add_document ds url tokens important_tokens = Inr ?s2"
      by (simp add: disk_add_document_def Let_def)
    with True assms(2) show ?thesis by simp
  next
    case False
    have ne: "index ?s2 \<noteq> []"
      using assms(3) by (auto simp: add_document_index index_tokens_nonempty_iff)
    have dir: "partial_index_dir ?s2 = Some dir" using assms(2) by simp
    have "disk_add_document ds url tokens important_tokens = offload_to_disk ?s2"
      using False by (simp add: disk_add_document_def Let_def)
    then have eq: "disk_add_document ds url tokens important_tokens =
        Inr (?s2\<lparr>partial_index_dir :=
                Some (AList.update (partial_mapping_name (partial_index_count ?s2))
                        (MappingJson (doc_ids ?s2) (doc_id_to_url ?s2))
                        (AList.update (partial_index_name (partial_index_count ?s2))
                           (IndexJson (index ?s2)) dir)),
              partial_index_count := partial_index_count ?s2 + 1,
              index := [],
              docs_in_memory := 0\<rparr>)"
      by (simp only: offload_to_disk_nonempty [OF ne dir])
    have new: "\<forall>i. i < partial_index_count ds
                 \<longrightarrow> partial_index_name i \<noteq> partial_index_name (partial_index_count ds)"
      by (auto dest: partial_index_name_inj)
    show ?thesis
      unfolding eq using False assms(1) new
      by (simp add: update_conv' length_format_03d) (simp add: partial_index_name_def)
  qed
qed

text \<open>
  The theorem at a fresh indexer with threshold 1 and the one-word document \<open>cat\<close>: the
  call spills segment \<open>000\<close>.
\<close>

theorem spill_when_threshold_reached_witness:
  "0 < max_docs_in_memory (new_disk_based_indexer [] None 1)
   \<and> partial_index_dir (new_disk_based_indexer [] None 1) = Some []
   \<and> (\<exists>ds' dir'. disk_add_document (new_disk_based_indexer [] None 1) ''u'' [''cat''] [] = Inr ds'
         \<and> int (docs_in_memory ds') < max_docs_in_memory ds'
         \<and> index ds' = [] \<and> docs_in_memory ds' = 0 \<and> partial_index_count ds' = 1
         \<and> partial_index_dir ds' = Some dir'
         \<and> map_of dir' ''partial_index_000.json''
              = Some (IndexJson [(''cat'', [(0, \<lparr>tf = 1, is_important = False\<rparr>)])])
         \<and> map_of dir' ''partial_mapping_000.json''
              = Some (MappingJson [(''u'', 0)] [(0, ''u'')]))"
proof -
  let ?ds = "new_disk_based_indexer [] None 1"
  have h1: "0 < max_docs_in_memory ?ds" by (simp add: new_disk_based_indexer_def)
  have h2: "partial_index_dir ?ds = Some []" by (simp add: new_disk_based_indexer_def)
  have h3: "[''cat''] \<noteq> [] \<or> ([] :: string list) \<noteq> [] \<or> index ?ds \<noteq> []" by simp
  have c: "partial_index_count ?ds = 0" "docs_in_memory ?ds = 0" "max_docs_in_memory ?ds = 1"
    by (simp_all add: new_disk_based_indexer_def)
  have n: "partial_mapping_name 0 = ''partial_mapping_000.json''"
    by (simp add: partial_mapping_name_def format_03d_small)
  have a: "index (add_document ?ds ''u'' [''cat''] []) = [(''cat'', [(0, \<lparr>tf = 1, is_important = False\<rparr>)])]"
    "doc_ids (add_document ?ds ''u'' [''cat''] []) = [(''u'', 0)]"
    "doc_id_to_url (add_document ?ds ''u'' [''cat''] []) = [(0, ''u'')]"
    by (simp_all add: add_document_def get_or_create_doc_id_def new_disk_based_indexer_def
          index_tokens_def count_tokens_def set_posting_def dict_get_def Let_def)
  from spill_when_threshold_reached [OF h1 h2 h3, of "''u''"] h1 h2
  show ?thesis
    by (simp only: c a n partial_index_name_0) auto
qed

subsection \<open>C7: the number of segments, and the clean-up\<close>

lemma ceil_div_split:
  assumes "0 < m"
  shows "ceil_div k m = k div m + (if k mod m = 0 then 0 else 1)"
proof -
  define r where "r = k mod m"
  define q where "q = k div m"
  have k: "k = m * q + r" by (simp add: q_def r_def)
  have r: "r < m" using assms by (simp add: r_def)
  show ?thesis
  proof (cases "r = 0")
    case True
    have "(k + m - 1) div m = q"
    proof (rule div_nat_eqI)
      show "m * q \<le> k + m - 1" using k assms by simp
      show "k + m - 1 < m * Suc q" using k True assms by simp
    qed
    with True show ?thesis by (simp add: ceil_div_def q_def r_def)
  next
    case False
    have "(k + m - 1) div m = Suc q"
    proof (rule div_nat_eqI)
      show "m * Suc q \<le> k + m - 1" using k False by simp
      show "k + m - 1 < m * Suc (Suc q)" using k r by simp
    qed
    with False show ?thesis by (simp add: ceil_div_def q_def r_def)
  qed
qed

lemma segments_present_offload:
  assumes "segments_present s" "index s \<noteq> []"
  shows "\<exists>s'. offload_to_disk s = Inr s' \<and> segments_present s'
            \<and> partial_index_count s' = partial_index_count s + 1
            \<and> index s' = [] \<and> docs_in_memory s' = 0
            \<and> max_docs_in_memory s' = max_docs_in_memory s
            \<and> output_dir s' = output_dir s"
proof -
  from assms(1) obtain d where d: "partial_index_dir s = Some d"
    and segs: "\<forall>i < partial_index_count s. \<exists>seg. map_of d (partial_index_name i) = Some (IndexJson seg)"
    by (auto simp: segments_present_def)
  have "\<exists>seg. map_of (AList.update (partial_mapping_name (partial_index_count s))
                        (MappingJson (doc_ids s) (doc_id_to_url s))
                        (AList.update (partial_index_name (partial_index_count s))
                           (IndexJson (index s)) d)) (partial_index_name i) = Some (IndexJson seg)"
    if "i < partial_index_count s + 1" for i
  proof (cases "i = partial_index_count s")
    case True then show ?thesis by (simp add: update_conv')
  next
    case False
    with that have "i < partial_index_count s" by simp
    with segs obtain seg where "map_of d (partial_index_name i) = Some (IndexJson seg)" by auto
    with False show ?thesis by (auto simp: update_conv' dest: partial_index_name_inj)
  qed
  then show ?thesis
    by (simp add: offload_to_disk_nonempty [OF assms(2) d] segments_present_def)
qed

lemma builder_inv_add_document:
  assumes "builder_inv m s" "tokens \<noteq> [] \<or> imps \<noteq> []"
  shows "\<exists>s'. disk_add_document s url tokens imps = Inr s' \<and> builder_inv m s'
     \<and> docs_in_memory s' + m * partial_index_count s'
        = docs_in_memory s + m * partial_index_count s + 1
     \<and> output_dir s' = output_dir s"
proof -
  let ?s1 = "add_document s url tokens imps"
  let ?s2 = "?s1\<lparr>docs_in_memory := docs_in_memory ?s1 + 1\<rparr>"
  from assms(1) have m: "max_docs_in_memory s = int m" and lt: "docs_in_memory s < m"
    and sp: "segments_present s" by (simp_all add: builder_inv_def)
  have ne: "index ?s2 \<noteq> []" using assms(2) by (auto simp: add_document_index index_tokens_nonempty_iff)
  have sp2: "segments_present ?s2" using sp by (simp add: segments_present_def)
  show ?thesis
  proof (cases "docs_in_memory s + 1 < m")
    case True
    then have "disk_add_document s url tokens imps = Inr ?s2"
      using m by (simp add: disk_add_document_def Let_def)
    moreover have "builder_inv m ?s2"
      using True m ne sp2 by (simp add: builder_inv_def)
    ultimately show ?thesis by simp
  next
    case False
    with lt have eq: "docs_in_memory s + 1 = m" by simp
    have "disk_add_document s url tokens imps = offload_to_disk ?s2"
      using False m by (simp add: disk_add_document_def Let_def)
    moreover from segments_present_offload [OF sp2 ne]
    obtain s' where s': "offload_to_disk ?s2 = Inr s'" "segments_present s'"
      "partial_index_count s' = partial_index_count ?s2 + 1" "index s' = []"
      "docs_in_memory s' = 0" "max_docs_in_memory s' = max_docs_in_memory ?s2"
      "output_dir s' = output_dir ?s2" by blast
    moreover have "builder_inv m s'" using s' m lt by (simp add: builder_inv_def)
    ultimately show ?thesis using eq by simp
  qed
qed

lemma builder_inv_add_documents:
  assumes "builder_inv m s" "\<forall>(url, tokens, imps) \<in> set docs. tokens \<noteq> [] \<or> imps \<noteq> []"
  shows "\<exists>s'. add_documents s docs = Inr s' \<and> builder_inv m s'
     \<and> docs_in_memory s' + m * partial_index_count s'
        = docs_in_memory s + m * partial_index_count s + length docs
     \<and> output_dir s' = output_dir s"
  using assms
proof (induction docs arbitrary: s)
  case Nil then show ?case by simp
next
  case (Cons doc docs)
  obtain url tokens imps where doc: "doc = (url, tokens, imps)" by (cases doc) auto
  with Cons.prems(2) have tk: "tokens \<noteq> [] \<or> imps \<noteq> []" by simp
  from builder_inv_add_document [OF Cons.prems(1) tk, of url]
  obtain s1 where s1: "disk_add_document s url tokens imps = Inr s1" "builder_inv m s1"
    "docs_in_memory s1 + m * partial_index_count s1
        = docs_in_memory s + m * partial_index_count s + 1"
    "output_dir s1 = output_dir s" by blast
  from Cons.prems(2) have rest: "\<forall>(url, tokens, imps) \<in> set docs. tokens \<noteq> [] \<or> imps \<noteq> []" by simp
  from Cons.IH [OF s1(2) rest]
  obtain s' where "add_documents s1 docs = Inr s'" "builder_inv m s'"
    "docs_in_memory s' + m * partial_index_count s'
        = docs_in_memory s1 + m * partial_index_count s1 + length docs"
    "output_dir s' = output_dir s1" by blast
  with s1 doc show ?case by simp
qed

lemma load_partial_indexes_ok:
  assumes "\<forall>i \<in> set js. \<exists>seg. map_of d (partial_index_name i) = Some (IndexJson seg)"
  shows "\<exists>merged'. load_partial_indexes d js merged = Inr merged'"
  using assms by (induction js arbitrary: merged) auto

lemma merge_partial_indexes_ok:
  assumes "segments_present s"
  shows "\<exists>idx. merge_partial_indexes s = Inr (save_final_index_from_dict s idx)"
proof (cases "partial_index_count s = 0")
  case True then show ?thesis by (auto simp: merge_partial_indexes_def save_final_index_def)
next
  case False
  from assms obtain d where d: "partial_index_dir s = Some d"
    and segs: "\<forall>i < partial_index_count s. \<exists>seg. map_of d (partial_index_name i) = Some (IndexJson seg)"
    by (auto simp: segments_present_def)
  from segs have "\<forall>i \<in> set [0 ..< partial_index_count s].
      \<exists>seg. map_of d (partial_index_name i) = Some (IndexJson seg)" by simp
  from load_partial_indexes_ok [OF this]
  obtain merged' where "load_partial_indexes d [0 ..< partial_index_count s] [] = Inr merged'"
    by blast
  with False d show ?thesis by (auto simp: merge_partial_indexes_def)
qed

lemma finalize_ok:
  assumes "segments_present s"
  shows "\<exists>s'. finalize s = Inr s'
     \<and> partial_index_count s' = partial_index_count s + (if index s = [] then 0 else 1)
     \<and> partial_index_dir s' = None
     \<and> (\<exists>idx. map_of (output_dir s') ''inverted_index.json'' = Some (IndexJson idx))
     \<and> (\<exists>u2i i2u. map_of (output_dir s') ''doc_mapping.json'' = Some (MappingJson u2i i2u))"
proof -
  have "\<exists>s1. (if index s \<noteq> [] then offload_to_disk s else Inr s) = Inr s1
     \<and> segments_present s1
     \<and> partial_index_count s1 = partial_index_count s + (if index s = [] then 0 else 1)"
  proof (cases "index s = []")
    case True then show ?thesis using assms by simp
  next
    case False
    from segments_present_offload [OF assms False] False show ?thesis by auto
  qed
  then obtain s1 where s1: "(if index s \<noteq> [] then offload_to_disk s else Inr s) = Inr s1"
    "segments_present s1"
    "partial_index_count s1 = partial_index_count s + (if index s = [] then 0 else 1)" by blast
  from merge_partial_indexes_ok [OF s1(2)]
  obtain idx where m: "merge_partial_indexes s1 = Inr (save_final_index_from_dict s1 idx)" by blast
  have "finalize s = Inr ((save_doc_mappings (save_final_index_from_dict s1 idx))\<lparr>partial_index_dir := None\<rparr>)"
    unfolding finalize_def s1(1) by (simp add: m)
  then show ?thesis using s1(3)
    by (simp add: save_doc_mappings_def save_final_index_from_dict_def Let_def split_beta update_conv')
qed

lemma builder_inv_new:
  "0 < max_docs \<Longrightarrow> builder_inv (nat max_docs) (new_disk_based_indexer out_files partial_files max_docs)"
  by (simp add: builder_inv_def segments_present_def new_disk_based_indexer_def)

text \<open>
  Claim C7 says that a build of more documents than the threshold writes at least
  \<open>ceil(total_docs / threshold)\<close> segment files. A document without tokens adds no
  posting, and an empty accumulator is never spilled: the build of two such documents
  with threshold 1 writes no segment at all, where the claim asks for two.
\<close>

theorem segment_count_counterexample:
  "\<exists>s'. build_index_disk [] None 1 [(''a'', [], []), (''b'', [], [])] = Inr s'
      \<and> (1 :: int) < int (length [(''a'', [] :: string list, [] :: string list), (''b'', [], [])])
      \<and> get_partial_index_count s' = 0
      \<and> \<not> ceil_div (length [(''a'', [] :: string list, [] :: string list), (''b'', [], [])]) 1
            \<le> get_partial_index_count s'"
  by (simp add: build_index_disk_def new_disk_based_indexer_def disk_add_document_def
        add_document_def get_or_create_doc_id_def finalize_def merge_partial_indexes_def
        save_final_index_def save_final_index_from_dict_def save_doc_mappings_def
        dict_update_all_def get_partial_index_count_def offload_to_disk_def ceil_div_def Let_def)

text \<open>
  Claim C7, amended. For every build with a positive threshold in which every added
  document has at least one token, the build succeeds, the number of segment files written
  is \<open>ceil(total_docs / threshold)\<close> (so at least that many), where \<open>total_docs\<close> counts
  the \<open>add_document\<close> calls; and after \<open>finalize\<close> the directory of the partial indexes is
  deleted while the final index file and the document mapping file exist.
\<close>

theorem segment_count_and_cleanup:
  assumes "0 < max_docs"
    and "\<forall>(url, tokens, important_tokens) \<in> set docs. tokens \<noteq> [] \<or> important_tokens \<noteq> []"
  shows
    "\<exists>s'. build_index_disk out_files partial_files max_docs docs = Inr s'
       \<and> get_partial_index_count s' = ceil_div (length docs) (nat max_docs)
       \<and> ceil_div (length docs) (nat max_docs) \<le> get_partial_index_count s'
       \<and> partial_index_dir s' = None
       \<and> (\<exists>idx. map_of (output_dir s') ''inverted_index.json'' = Some (IndexJson idx))
       \<and> (\<exists>u2i i2u. map_of (output_dir s') ''doc_mapping.json'' = Some (MappingJson u2i i2u))"
proof -
  define m where "m = nat max_docs"
  have m: "0 < m" using assms(1) by (simp add: m_def)
  let ?s0 = "new_disk_based_indexer out_files partial_files max_docs"
  have inv0: "builder_inv m ?s0" unfolding m_def using assms(1) by (rule builder_inv_new)
  from builder_inv_add_documents [OF inv0 assms(2)]
  obtain s1 where s1: "add_documents ?s0 docs = Inr s1" "builder_inv m s1"
    "docs_in_memory s1 + m * partial_index_count s1
       = docs_in_memory ?s0 + m * partial_index_count ?s0 + length docs" by blast
  from s1(3) have sum: "length docs = m * partial_index_count s1 + docs_in_memory s1"
    by (simp add: new_disk_based_indexer_def)
  from s1(2) have lt: "docs_in_memory s1 < m"
    and emp: "(index s1 = []) = (docs_in_memory s1 = 0)"
    and sp: "segments_present s1" by (simp_all add: builder_inv_def)
  have q: "length docs div m = partial_index_count s1" using sum lt by simp
  have r: "length docs mod m = docs_in_memory s1" using sum lt by simp
  from finalize_ok [OF sp]
  obtain s' where s': "finalize s1 = Inr s'"
    "partial_index_count s' = partial_index_count s1 + (if index s1 = [] then 0 else 1)"
    "partial_index_dir s' = None"
    "\<exists>idx. map_of (output_dir s') ''inverted_index.json'' = Some (IndexJson idx)"
    "\<exists>u2i i2u. map_of (output_dir s') ''doc_mapping.json'' = Some (MappingJson u2i i2u)"
    by blast
  have "partial_index_count s' = ceil_div (length docs) m"
    using s'(2) emp q r by (simp add: ceil_div_split [OF m])
  moreover have "build_index_disk out_files partial_files max_docs docs = Inr s'"
    by (simp add: build_index_disk_def s1(1) s'(1))
  ultimately show ?thesis using s'(3-5) by (simp add: get_partial_index_count_def m_def)
qed

text \<open>
  The theorem at three one-word documents with threshold 2: two segments are written.
\<close>

theorem segment_count_and_cleanup_witness:
  "(0 :: int) < 2
   \<and> list_all (\<lambda>(url, tokens, important_tokens). tokens \<noteq> [] \<or> important_tokens \<noteq> [])
        [(''a'', [''x''], []), (''b'', [''y''], []), (''c'', [], [''z''])]
   \<and> (\<exists>s'. build_index_disk [] None 2
               [(''a'', [''x''], []), (''b'', [''y''], []), (''c'', [], [''z''])] = Inr s'
         \<and> get_partial_index_count s' = 2
         \<and> partial_index_dir s' = None
         \<and> (\<exists>idx. map_of (output_dir s') ''inverted_index.json'' = Some (IndexJson idx)))"
proof -
  have h1: "(0 :: int) < 2" by simp
  have h2: "\<forall>(url, tokens, important_tokens)
              \<in> set [(''a'', [''x''], []), (''b'', [''y''], []), (''c'', [], [''z''])].
              tokens \<noteq> [] \<or> important_tokens \<noteq> []" by simp
  have c: "ceil_div (length [(''a'', [''x''], [] :: string list), (''b'', [''y''], []),
             (''c'', [], [''z''])]) (nat 2) = 2"
    by (simp add: ceil_div_def)
  from segment_count_and_cleanup [OF h1 h2, of "[]" None] show ?thesis
    unfolding c by auto
qed

subsection \<open>C4: coalescing postings in the merge\<close>

lemma lookup_merge_posting:
  "lookup_posting (merge_posting merged t d p) t' d' =
     (if t' = t \<and> d' = d then Some (combine_posting (lookup_posting merged t d) p)
      else lookup_posting merged t' d')"
  by (auto simp: merge_posting_def Let_def lookup_set_posting combine_posting_def
           split: option.splits)

lemma lookup_fold_merge_posting:
  assumes "distinct (map fst ps)"
  shows "lookup_posting (fold (\<lambda>(d, p) acc. merge_posting acc t d p) ps acc) t' d' =
     (if t' = t
      then (case map_of ps d' of
              None \<Rightarrow> lookup_posting acc t' d'
            | Some p \<Rightarrow> Some (combine_posting (lookup_posting acc t d') p))
      else lookup_posting acc t' d')"
  using assms
proof (induction ps arbitrary: acc)
  case Nil then show ?case by simp
next
  case (Cons x ps)
  obtain d p where x: "x = (d, p)" by (cases x)
  from Cons.prems x have nd: "d \<notin> fst ` set ps" and dist: "distinct (map fst ps)" by auto
  have none: "map_of ps d = None" using nd by (simp add: map_of_eq_None_iff)
  show ?case
    using none by (auto simp: x Cons.IH [OF dist] lookup_merge_posting split: option.splits)
qed

lemma lookup_merge_partial_index_aux:
  assumes "distinct (map fst seg)" "\<forall>ps \<in> snd ` set seg. distinct (map fst ps)"
  shows "lookup_posting
           (fold (\<lambda>(term, ps) acc. fold (\<lambda>(d, p) acc'. merge_posting acc' term d p) ps acc)
                 seg merged) t d =
     (case lookup_posting seg t d of
        None \<Rightarrow> lookup_posting merged t d
      | Some p \<Rightarrow> Some (combine_posting (lookup_posting merged t d) p))"
  using assms
proof (induction seg arbitrary: merged)
  case Nil then show ?case by (simp add: lookup_posting_def)
next
  case (Cons x seg)
  obtain tm ps where x: "x = (tm, ps)" by (cases x)
  from Cons.prems x have nt: "tm \<notin> fst ` set seg" and dist: "distinct (map fst seg)"
    and dps: "distinct (map fst ps)"
    and rest: "\<forall>ps \<in> snd ` set seg. distinct (map fst ps)" by auto
  have none: "map_of seg tm = None" using nt by (simp add: map_of_eq_None_iff)
  show ?case
    using none
    by (auto simp: x Cons.IH [OF dist rest] lookup_fold_merge_posting [OF dps]
          lookup_posting_def [of "(tm, ps) # seg"] lookup_posting_def [of seg]
          split: option.splits)
qed

lemma lookup_merge_partial_index:
  assumes "wf_index seg"
  shows "lookup_posting (merge_partial_index merged seg) t d =
     (case lookup_posting seg t d of
        None \<Rightarrow> lookup_posting merged t d
      | Some p \<Rightarrow> Some (combine_posting (lookup_posting merged t d) p))"
  unfolding merge_partial_index_def
  using assms by (intro lookup_merge_partial_index_aux) (auto simp: wf_index_def wf_dict_def)

lemma load_partial_indexes_segments:
  assumes "\<forall>i \<in> set js. map_of d (partial_index_name i) = Some (IndexJson (f i))"
  shows "load_partial_indexes d js merged = Inr (foldl merge_partial_index merged (map f js))"
  using assms by (induction js arbitrary: merged) auto

lemma lookup_foldl_merge:
  assumes "\<forall>seg \<in> set segs. wf_index seg"
  shows "lookup_posting (foldl merge_partial_index merged segs) t d =
     foldl (\<lambda>a x. case x of None \<Rightarrow> a | Some p \<Rightarrow> Some (combine_posting a p))
           (lookup_posting merged t d) (map (\<lambda>seg. lookup_posting seg t d) segs)"
  using assms
  by (induction segs arbitrary: merged) (simp_all add: lookup_merge_partial_index)

lemma foldl_combine_coalesce:
  "foldl (\<lambda>a x. case x of None \<Rightarrow> a | Some p \<Rightarrow> Some (combine_posting a p)) acc found =
     (case acc of
        None \<Rightarrow> coalesce_spec found
      | Some e \<Rightarrow> Some \<lparr>tf = tf e + sum_list (map tf (present found)),
                       is_important = (is_important e \<or> list_ex is_important (present found))\<rparr>)"
proof (induction found arbitrary: acc)
  case Nil
  then show ?case by (simp add: coalesce_spec_def split: option.splits)
next
  case (Cons x found)
  show ?case
  proof (cases x)
    case None
    then show ?thesis
      by (simp add: Cons.IH coalesce_spec_def split: option.splits)
  next
    case (Some p)
    then show ?thesis
      by (auto simp: Cons.IH coalesce_spec_def combine_posting_def Let_def
            split: option.splits)
  qed
qed

lemma coalesce_spec_important:
  assumes "Some p \<in> set found" "is_important p"
  shows "\<exists>q. coalesce_spec found = Some q \<and> is_important q"
proof -
  from assms(1) have "p \<in> set (present found)"
    by (induction found rule: present.induct) auto
  with assms(2) show ?thesis
    by (auto simp: coalesce_spec_def Let_def list_ex_iff)
qed

text \<open>
  Claim C4. When the segments \<open>0, \<dots>, n - 1\<close> of a build are merged, the posting of a term
  and a document in the final index is the coalescing of the postings the segments hold
  for them: it exists iff some segment has one, its \<open>tf\<close> is the sum of the segments'
  \<open>tf\<close>s and its \<open>is_important\<close> the disjunction of their flags; so a flag that is true in
  some segment is true in the merged posting.
\<close>

theorem merge_coalesces_postings:
  assumes "0 < partial_index_count s"
    and "partial_index_dir s = Some d"
    and "length segs = partial_index_count s"
    and "\<forall>i < partial_index_count s. map_of d (partial_index_name i) = Some (IndexJson (segs ! i))"
    and "\<forall>seg \<in> set segs. wf_index seg"
  shows
    "\<exists>s' merged. merge_partial_indexes s = Inr s'
       \<and> map_of (output_dir s') ''inverted_index.json'' = Some (IndexJson merged)
       \<and> lookup_posting merged t doc_id
            = coalesce_spec (map (\<lambda>seg. lookup_posting seg t doc_id) segs)
       \<and> ((\<exists>seg \<in> set segs. \<exists>p. lookup_posting seg t doc_id = Some p \<and> is_important p)
            \<longrightarrow> (\<exists>q. lookup_posting merged t doc_id = Some q \<and> is_important q))"
proof -
  let ?n = "partial_index_count s"
  have "\<forall>i \<in> set [0 ..< ?n]. map_of d (partial_index_name i) = Some (IndexJson (segs ! i))"
    using assms(4) by simp
  then have "load_partial_indexes d [0 ..< ?n] []
               = Inr (foldl merge_partial_index [] (map ((!) segs) [0 ..< ?n]))"
    by (rule load_partial_indexes_segments)
  moreover have "map ((!) segs) [0 ..< ?n] = segs"
    using assms(3) by (metis map_nth)
  ultimately have ld: "load_partial_indexes d [0 ..< ?n] [] = Inr (foldl merge_partial_index [] segs)"
    by simp
  let ?merged = "foldl merge_partial_index [] segs"
  have res: "merge_partial_indexes s = Inr (save_final_index_from_dict s ?merged)"
    using assms(1,2) ld by (simp add: merge_partial_indexes_def)
  have look: "lookup_posting ?merged t doc_id
                = coalesce_spec (map (\<lambda>seg. lookup_posting seg t doc_id) segs)"
  proof -
    have "lookup_posting [] t doc_id = None" by (simp add: lookup_posting_def)
    then show ?thesis
      by (simp only: lookup_foldl_merge [OF assms(5)] foldl_combine_coalesce option.case)
  qed
  have imp: "\<exists>q. lookup_posting ?merged t doc_id = Some q \<and> is_important q"
    if "\<exists>seg \<in> set segs. \<exists>p. lookup_posting seg t doc_id = Some p \<and> is_important p"
  proof -
    from that obtain seg p where "seg \<in> set segs" "lookup_posting seg t doc_id = Some p"
      "is_important p" by blast
    then have "Some p \<in> set (map (\<lambda>seg. lookup_posting seg t doc_id) segs)" by force
    from coalesce_spec_important [OF this \<open>is_important p\<close>] show ?thesis by (simp add: look)
  qed
  show ?thesis
    using res look imp by (auto simp: save_final_index_from_dict_def update_conv')
qed

lemma partial_index_name_1: "partial_index_name (Suc 0) = ''partial_index_001.json''"
  using format_03d_small(2) by (simp add: partial_index_name_def)

text \<open>
  The theorem at two segments that both hold the term \<open>a\<close> for document 0, with \<open>tf\<close> 1
  and 2 and the flag set in the second only: the merged posting has \<open>tf\<close> 3 and the flag.
\<close>

theorem merge_coalesces_postings_witness:
  "\<exists>s' merged.
      merge_partial_indexes
        ((new_disk_based_indexer []
            (Some [(''partial_index_000.json'',
                      IndexJson [(''a'', [(0, \<lparr>tf = 1, is_important = False\<rparr>)])]),
                   (''partial_index_001.json'',
                      IndexJson [(''a'', [(0, \<lparr>tf = 2, is_important = True\<rparr>)]),
                                 (''b'', [(0, \<lparr>tf = 1, is_important = False\<rparr>)])])])
            1)\<lparr>partial_index_count := 2\<rparr>) = Inr s'
      \<and> map_of (output_dir s') ''inverted_index.json'' = Some (IndexJson merged)
      \<and> lookup_posting merged ''a'' 0 = Some \<lparr>tf = 3, is_important = True\<rparr>"
proof -
  let ?seg0 = "[(''a'', [(0 :: nat, \<lparr>tf = 1, is_important = False\<rparr>)])]"
  let ?seg1 = "[(''a'', [(0 :: nat, \<lparr>tf = 2, is_important = True\<rparr>)]),
                (''b'', [(0, \<lparr>tf = 1, is_important = False\<rparr>)])]"
  let ?d = "[(''partial_index_000.json'', IndexJson ?seg0),
             (''partial_index_001.json'', IndexJson ?seg1)]"
  let ?s = "(new_disk_based_indexer [] (Some ?d) 1)\<lparr>partial_index_count := 2\<rparr>"
  have h1: "0 < partial_index_count ?s" by simp
  have h2: "partial_index_dir ?s = Some ?d" by (simp add: new_disk_based_indexer_def)
  have h3: "length [?seg0, ?seg1] = partial_index_count ?s" by simp
  have h4: "\<forall>i < partial_index_count ?s.
              map_of ?d (partial_index_name i) = Some (IndexJson ([?seg0, ?seg1] ! i))"
  proof (intro allI impI)
    fix i assume "i < partial_index_count ?s"
    then have "i = 0 \<or> i = 1" by auto
    then show "map_of ?d (partial_index_name i) = Some (IndexJson ([?seg0, ?seg1] ! i))"
      by (auto simp: partial_index_name_0 partial_index_name_1)
  qed
  have h5: "\<forall>seg \<in> set [?seg0, ?seg1]. wf_index seg"
    by (simp add: wf_index_def wf_dict_def)
  have c: "coalesce_spec (map (\<lambda>seg. lookup_posting seg ''a'' 0) [?seg0, ?seg1])
             = Some \<lparr>tf = 3, is_important = True\<rparr>"
    by (simp add: coalesce_spec_def lookup_posting_def)
  from merge_coalesces_postings [OF h1 h2 h3 h4 h5, of "''a''" 0]
  show ?thesis unfolding c by blast
qed

subsection \<open>C8: missing files and absent terms\<close>

text \<open>
  Claim C8 says that a missing index file makes the construction of the engine fail. It
  does not: \<open>__init__\<close> only reads the size of the index file when the file exists, and
  the only file whose absence raises is the document mapping. With a document mapping
  and no index file the engine is constructed.
\<close>

theorem missing_index_file_counterexample:
  "\<exists>e. new_m3_search_engine (example_runtime [])
          \<lparr>inverted_index_json = None,
           doc_mapping_file = Some \<lparr>json_url_to_id = Some [(''u'', 0)],
                                   json_id_to_url = Some [(''0'', ''u'')]\<rparr>\<rparr> = Inr e
      \<and> index_file e = None \<and> total_docs e = 1"
  by (simp add: new_m3_search_engine_def example_runtime_def decimal_int_def nat_of_digits_def)

text \<open>
  Claim C8, amended. At initialization a missing document mapping file is a fatal error
  (\<open>FileNotFoundError\<close>); a missing index file is not: when the document mapping loads,
  the engine is constructed, and every lookup on it returns the empty mapping. At lookup
  time a term absent from the index (not in the cache, and either not found in the file
  or found with a key that is not a document identifier, as when the search for the term
  hits another entry of the file) makes \<open>postings(term)\<close> the empty mapping, not an error,
  and leaves the engine as it was.
\<close>

theorem missing_files_and_absent_terms:
  "(doc_mapping_file dir = None \<longrightarrow> new_m3_search_engine rt dir = Inl FileNotFoundError)
   \<and> (inverted_index_json dir = None \<longrightarrow> doc_mapping_file dir = Some data \<longrightarrow>
        int_keys (py_int rt) (case json_id_to_url data of None \<Rightarrow> [] | Some m \<Rightarrow> m) [] = Some i2u \<longrightarrow>
        (\<exists>e. new_m3_search_engine rt dir = Inr e
           \<and> (\<forall>term. get_postings_from_disk rt e term = ([], e))))
   \<and> (map_of (postings_cache e') term = None \<longrightarrow> index_file e' = Some content \<longrightarrow>
        extract_term_from_json rt term content = None \<longrightarrow>
        get_postings_from_disk rt e' term = ([], e'))
   \<and> (map_of (postings_cache e') term = None \<longrightarrow> index_file e' = Some content \<longrightarrow>
        extract_term_from_json rt term content = Some term_data \<longrightarrow>
        int_keys (py_int rt) term_data [] = None \<longrightarrow>
        get_postings_from_disk rt e' term = ([], e'))"
  by (auto simp: new_m3_search_engine_def get_postings_from_disk_def Let_def)

text \<open>
  The theorem at a directory without files, at a directory with the document mapping
  only, and at an engine whose index file does not mention the term \<open>zzzzzz\<close>.
\<close>

theorem missing_files_and_absent_terms_witness:
  "new_m3_search_engine (example_runtime [])
     \<lparr>inverted_index_json = None, doc_mapping_file = None\<rparr> = Inl FileNotFoundError
   \<and> (\<exists>e. new_m3_search_engine (example_runtime [])
             \<lparr>inverted_index_json = None,
              doc_mapping_file = Some \<lparr>json_url_to_id = Some [(''u'', 0)],
                                      json_id_to_url = Some [(''0'', ''u'')]\<rparr>\<rparr> = Inr e
          \<and> get_postings_from_disk (example_runtime []) e ''zzzzzz'' = ([], e))
   \<and> get_postings_from_disk (example_runtime [])
        \<lparr>index_file = Some ''index'', url_to_id = [(''u'', 0)], id_to_url = [(0, ''u'')],
         total_docs = 1, df_cache = [], postings_cache = [], index_file_size = 5\<rparr> ''zzzzzz''
       = ([], \<lparr>index_file = Some ''index'', url_to_id = [(''u'', 0)], id_to_url = [(0, ''u'')],
               total_docs = 1, df_cache = [], postings_cache = [], index_file_size = 5\<rparr>)"
proof -
  let ?rt = "example_runtime []"
  let ?data = "\<lparr>json_url_to_id = Some [(''u'', 0)], json_id_to_url = Some [(''0'', ''u'')]\<rparr>"
  let ?e = "\<lparr>index_file = Some ''index'', url_to_id = [(''u'', 0)], id_to_url = [(0, ''u'')],
         total_docs = 1, df_cache = [], postings_cache = [], index_file_size = 5\<rparr>"
  have k: "int_keys (py_int ?rt) (case json_id_to_url ?data of None \<Rightarrow> [] | Some m \<Rightarrow> m) []
             = Some [(0, ''u'')]"
    by (simp add: example_runtime_def decimal_int_def nat_of_digits_def)
  have x: "extract_term_from_json ?rt ''zzzzzz'' ''index'' = None" by (simp add: example_runtime_def)
  from missing_files_and_absent_terms
         [of "\<lparr>inverted_index_json = None, doc_mapping_file = None\<rparr>" ?rt]
  have a: "new_m3_search_engine ?rt \<lparr>inverted_index_json = None, doc_mapping_file = None\<rparr>
             = Inl FileNotFoundError" by simp
  from missing_files_and_absent_terms
         [of "\<lparr>inverted_index_json = None, doc_mapping_file = Some ?data\<rparr>" ?rt ?data
             "[(0, ''u'')]"] k
  have b: "\<exists>e. new_m3_search_engine ?rt
                 \<lparr>inverted_index_json = None, doc_mapping_file = Some ?data\<rparr> = Inr e
             \<and> get_postings_from_disk ?rt e ''zzzzzz'' = ([], e)" by simp blast
  from missing_files_and_absent_terms [of _ ?rt _ _ ?e "''zzzzzz''" "''index''"] x
  have c: "get_postings_from_disk ?rt ?e ''zzzzzz'' = ([], ?e)" by simp
  from a b c show ?thesis by blast
qed

subsection \<open>A search on consistent caches\<close>

lemma int_keys_nonempty:
  "int_keys conv xs acc = Some ps \<Longrightarrow> xs \<noteq> [] \<or> acc \<noteq> [] \<Longrightarrow> ps \<noteq> []"
proof (induction xs arbitrary: acc)
  case Nil then show ?case by simp
next
  case (Cons x xs)
  obtain k v where x: "x = (k, v)" by (cases x)
  from Cons.prems(1) x obtain i where i: "conv k = Some i"
    and r: "int_keys conv xs (AList.update i v acc) = Some ps"
    by (auto split: option.splits)
  from Cons.IH [OF r] show ?case by simp
qed

lemma get_postings_consistent:
  assumes "caches_consistent rt e"
  shows "fst (get_postings rt e term) = disk_postings rt (index_file e) term
       \<and> caches_consistent rt (snd (get_postings rt e term))
       \<and> same_index e (snd (get_postings rt e term))"
proof (cases "map_of (postings_cache e) term")
  case (Some cached)
  then have "(term, cached) \<in> set (postings_cache e)" by (rule map_of_SomeD)
  with assms have "cached = disk_postings rt (index_file e) term"
    by (auto simp: caches_consistent_def)
  with Some assms show ?thesis
    by (simp add: get_postings_def get_postings_from_disk_def same_index_def)
next
  case None
  show ?thesis
  proof (cases "index_file e")
    case noFile: None
    with None assms show ?thesis
      by (simp add: get_postings_def get_postings_from_disk_def same_index_def disk_postings_def)
  next
    case (Some content)
    show ?thesis
    proof (cases "extract_term_from_json rt term content")
      case noMatch: None
      with None Some assms show ?thesis
        by (simp add: get_postings_def get_postings_from_disk_def same_index_def disk_postings_def)
    next
      case found: (Some term_data)
      show ?thesis
      proof (cases "term_data = []")
        case True
        with None Some found assms show ?thesis
          by (simp add: get_postings_def get_postings_from_disk_def same_index_def
                disk_postings_def)
      next
        case False
        show ?thesis
        proof (cases "int_keys (py_int rt) term_data []")
          case bad: None
          with None Some found False assms show ?thesis
            by (simp add: get_postings_def get_postings_from_disk_def same_index_def
                  disk_postings_def)
        next
          case ok: (Some ps)
          let ?cache' = "if length (postings_cache e) \<ge> cache_max_size
                         then tl (postings_cache e) else postings_cache e"
          have sub: "set ?cache' \<subseteq> set (postings_cache e)"
            by (cases "postings_cache e") auto
          have dp: "disk_postings rt (index_file e) term = ps"
            using Some found ok by (simp add: disk_postings_def)
          have res: "get_postings rt e term
                       = (ps, e\<lparr>postings_cache := AList.update term ps ?cache'\<rparr>)"
            using None Some found False ok
            by (simp add: get_postings_def get_postings_from_disk_def Let_def)
          have "caches_consistent rt (e\<lparr>postings_cache := AList.update term ps ?cache'\<rparr>)"
            unfolding caches_consistent_def
          proof (intro conjI ballI)
            fix x
            assume "x \<in> set (postings_cache (e\<lparr>postings_cache := AList.update term ps ?cache'\<rparr>))"
            then have "x = (term, ps) \<or> x \<in> set ?cache'"
              by (auto dest: set_update_cases)
            with sub assms dp
            show "case x of (term', ps') \<Rightarrow>
                    ps' = disk_postings rt
                            (index_file (e\<lparr>postings_cache := AList.update term ps ?cache'\<rparr>)) term'"
              by (auto simp: caches_consistent_def)
          next
            fix x
            assume "x \<in> set (df_cache (e\<lparr>postings_cache := AList.update term ps ?cache'\<rparr>))"
            with assms
            show "case x of (term', df) \<Rightarrow>
                    df = length (disk_postings rt
                            (index_file (e\<lparr>postings_cache := AList.update term ps ?cache'\<rparr>)) term')"
              by (auto simp: caches_consistent_def)
          qed
          with res dp show ?thesis by (simp add: same_index_def)
        qed
      qed
    qed
  qed
qed

lemma same_index_refl [simp]: "same_index e e"
  by (simp add: same_index_def)

lemma same_index_trans: "same_index e e1 \<Longrightarrow> same_index e1 e2 \<Longrightarrow> same_index e e2"
  by (simp add: same_index_def)

lemma get_document_frequency_consistent:
  assumes "caches_consistent rt e"
  shows "fst (get_document_frequency rt e term) = length (disk_postings rt (index_file e) term)
       \<and> caches_consistent rt (snd (get_document_frequency rt e term))
       \<and> same_index e (snd (get_document_frequency rt e term))"
proof (cases "map_of (df_cache e) term")
  case (Some df)
  then have "(term, df) \<in> set (df_cache e)" by (rule map_of_SomeD)
  with assms have "df = length (disk_postings rt (index_file e) term)"
    by (auto simp: caches_consistent_def)
  with Some assms show ?thesis by (simp add: get_document_frequency_def)
next
  case None
  let ?r = "get_postings rt e term"
  from get_postings_consistent [OF assms, of "term"]
  have p: "fst ?r = disk_postings rt (index_file e) term"
    and c: "caches_consistent rt (snd ?r)" and s: "same_index e (snd ?r)" by simp_all
  let ?e' = "(snd ?r)\<lparr>df_cache := AList.update term (length (fst ?r)) (df_cache (snd ?r))\<rparr>"
  have res: "get_document_frequency rt e term = (length (fst ?r), ?e')"
    using None by (simp add: get_document_frequency_def split_beta Let_def)
  have "caches_consistent rt ?e'"
    unfolding caches_consistent_def
  proof (intro conjI ballI)
    fix x assume "x \<in> set (postings_cache ?e')"
    with c show "case x of (term', ps') \<Rightarrow> ps' = disk_postings rt (index_file ?e') term'"
      by (auto simp: caches_consistent_def)
  next
    fix x assume "x \<in> set (df_cache ?e')"
    then have "x = (term, length (fst ?r)) \<or> x \<in> set (df_cache (snd ?r))"
      by (auto dest: set_update_cases)
    with c p s
    show "case x of (term', df) \<Rightarrow> df = length (disk_postings rt (index_file ?e') term')"
      by (auto simp: caches_consistent_def same_index_def)
  qed
  with res p s show ?thesis by (simp add: same_index_def)
qed

lemma fetch_fold_consistent:
  assumes "caches_consistent rt e"
  shows "\<exists>e'. fold (fetch_step rt) qts (acc, e)
                 = (pure_term_postings rt (index_file e) qts acc, e')
        \<and> caches_consistent rt e' \<and> same_index e e'"
  using assms
proof (induction qts arbitrary: acc e)
  case Nil then show ?case by (simp add: pure_term_postings_def)
next
  case (Cons t qts)
  let ?r = "get_postings rt e t"
  from get_postings_consistent [OF Cons.prems, of t]
  have p: "fst ?r = disk_postings rt (index_file e) t"
    and c: "caches_consistent rt (snd ?r)" and s: "same_index e (snd ?r)" by simp_all
  have f: "index_file (snd ?r) = index_file e" using s by (simp add: same_index_def)
  have step: "fetch_step rt t (acc, e) = (pure_fetch_step rt (index_file e) t acc, snd ?r)"
    using p by (simp add: fetch_step_def pure_fetch_step_def split_beta Let_def)
  from Cons.IH [OF c, of "pure_fetch_step rt (index_file e) t acc"]
  obtain e' where e': "fold (fetch_step rt) qts (pure_fetch_step rt (index_file e) t acc, snd ?r)
       = (pure_term_postings rt (index_file (snd ?r)) qts (pure_fetch_step rt (index_file e) t acc), e')"
    "caches_consistent rt e'" "same_index (snd ?r) e'" by blast
  have "fold (fetch_step rt) (t # qts) (acc, e)
          = (pure_term_postings rt (index_file e) (t # qts) acc, e')"
    using e'(1) by (simp add: step f pure_term_postings_def)
  with e'(2,3) s show ?case by (blast intro: same_index_trans)
qed

lemma fetch_term_postings_consistent:
  assumes "caches_consistent rt e"
  shows "\<exists>e'. fetch_term_postings rt e qts = (pure_term_postings rt (index_file e) qts [], e')
        \<and> caches_consistent rt e' \<and> same_index e e'"
  unfolding fetch_term_postings_def using assms by (rule fetch_fold_consistent)

lemma map_of_pure_term_postings:
  "map_of (pure_term_postings rt file qts acc) t =
     (if t \<in> set qts \<and> disk_postings rt file t \<noteq> [] then Some (disk_postings rt file t)
      else map_of acc t)"
  unfolding pure_term_postings_def
  by (induction qts arbitrary: acc) (auto simp: pure_fetch_step_def Let_def update_conv')

lemma pure_term_postings_entries:
  "(t, ps) \<in> set (pure_term_postings rt file qts acc) \<Longrightarrow>
     (t, ps) \<in> set acc \<or> (t \<in> set qts \<and> ps = disk_postings rt file t \<and> ps \<noteq> [])"
  unfolding pure_term_postings_def
proof (induction qts arbitrary: acc)
  case Nil then show ?case by simp
next
  case (Cons q qts)
  from Cons.prems have "(t, ps) \<in> set (fold (pure_fetch_step rt file) qts
                                          (pure_fetch_step rt file q acc))" by simp
  from Cons.IH [OF this]
  have "(t, ps) \<in> set (pure_fetch_step rt file q acc)
          \<or> (t \<in> set qts \<and> ps = disk_postings rt file t \<and> ps \<noteq> [])" .
  then show ?case
    by (auto simp: pure_fetch_step_def Let_def dest: set_update_cases split: if_splits)
qed

lemma distinct_pure_term_postings:
  "distinct (map fst acc) \<Longrightarrow> distinct (map fst (pure_term_postings rt file qts acc))"
  unfolding pure_term_postings_def
  by (induction qts arbitrary: acc) (auto simp: pure_fetch_step_def Let_def distinct_update)

lemma dfs_fold_consistent:
  assumes "caches_consistent rt e"
  shows "\<exists>dfs e'. fold (dfs_step rt tp) qts (acc, e) = (dfs, e')
        \<and> caches_consistent rt e' \<and> same_index e e'
        \<and> (\<forall>t. map_of dfs t =
               (if t \<in> set qts \<and> map_of tp t \<noteq> None
                then Some (length (disk_postings rt (index_file e) t)) else map_of acc t))"
  using assms
proof (induction qts arbitrary: acc e)
  case Nil then show ?case by simp
next
  case (Cons q qts)
  show ?case
  proof (cases "map_of tp q \<noteq> None")
    case False
    then have "dfs_step rt tp q (acc, e) = (acc, e)" by (simp add: dfs_step_def)
    with Cons.IH [OF Cons.prems, of acc] False show ?thesis by auto
  next
    case True
    let ?r = "get_document_frequency rt e q"
    from get_document_frequency_consistent [OF Cons.prems, of q]
    have p: "fst ?r = length (disk_postings rt (index_file e) q)"
      and c: "caches_consistent rt (snd ?r)" and s: "same_index e (snd ?r)" by simp_all
    have f: "index_file (snd ?r) = index_file e" using s by (simp add: same_index_def)
    have step: "dfs_step rt tp q (acc, e) = (AList.update q (fst ?r) acc, snd ?r)"
      using True by (simp add: dfs_step_def split_beta Let_def)
    from Cons.IH [OF c, of "AList.update q (fst ?r) acc"]
    obtain dfs e' where r: "fold (dfs_step rt tp) qts (AList.update q (fst ?r) acc, snd ?r) = (dfs, e')"
      "caches_consistent rt e'" "same_index (snd ?r) e'"
      "\<forall>t. map_of dfs t =
               (if t \<in> set qts \<and> map_of tp t \<noteq> None
                then Some (length (disk_postings rt (index_file (snd ?r)) t))
                else map_of (AList.update q (fst ?r) acc) t)" by blast
    have "fold (dfs_step rt tp) (q # qts) (acc, e) = (dfs, e')"
      using r(1) by (simp add: step)
    moreover have "same_index e e'" using s r(3) by (rule same_index_trans)
    moreover have "\<forall>t. map_of dfs t =
               (if t \<in> set (q # qts) \<and> map_of tp t \<noteq> None
                then Some (length (disk_postings rt (index_file e) t)) else map_of acc t)"
      using r(4) True p f by (auto simp: update_conv')
    ultimately show ?thesis using r(2) by blast
  qed
qed

lemma compute_term_dfs_consistent:
  assumes "caches_consistent rt e"
  shows "\<exists>dfs e'. compute_term_dfs rt e qts tp = (dfs, e')
        \<and> caches_consistent rt e' \<and> same_index e e'
        \<and> (\<forall>t. map_of dfs t =
               (if t \<in> set qts \<and> map_of tp t \<noteq> None
                then Some (length (disk_postings rt (index_file e) t)) else None))"
proof -
  from dfs_fold_consistent [OF assms, of tp qts "[]"]
  obtain dfs e' where r: "fold (dfs_step rt tp) qts ([], e) = (dfs, e')"
    "caches_consistent rt e'" "same_index e e'"
    "\<forall>t. map_of dfs t =
               (if t \<in> set qts \<and> map_of tp t \<noteq> None
                then Some (length (disk_postings rt (index_file e) t)) else map_of [] t)"
    by blast
  from r(4) have "\<forall>t. map_of dfs t =
               (if t \<in> set qts \<and> map_of tp t \<noteq> None
                then Some (length (disk_postings rt (index_file e) t)) else None)" by simp
  with r(1-3) show ?thesis unfolding compute_term_dfs_def by blast
qed

lemma fold_intersect_step:
  assumes "valid_set_iter (set_iter rt)"
  shows "set (fold (intersect_step rt) rest c0)
           = {d \<in> set c0. \<forall>x \<in> set rest. d \<in> fst ` set (snd x)}"
proof (induction rest arbitrary: c0)
  case Nil then show ?case by simp
next
  case (Cons x rest)
  have "set (intersect_step rt x c0) = {d \<in> set c0. d \<in> fst ` set (snd x)}"
    using assms by (auto simp: intersect_step_def valid_set_iter_def)
  then show ?case by (auto simp: Cons.IH)
qed

lemma distinct_fold_intersect_step:
  assumes "valid_set_iter (set_iter rt)" "distinct c0"
  shows "distinct (fold (intersect_step rt) rest c0)"
  using assms(2)
proof (induction rest arbitrary: c0)
  case Nil then show ?case by simp
next
  case (Cons x rest)
  have "distinct (intersect_step rt x c0)"
    using assms(1) by (simp add: intersect_step_def valid_set_iter_def)
  then show ?case using Cons.IH by simp
qed

lemma set_intersect_postings:
  assumes "valid_set_iter (set_iter rt)" "tp \<noteq> []"
  shows "set (intersect_postings rt tp) = {d. \<forall>x \<in> set tp. d \<in> fst ` set (snd x)}"
proof -
  obtain x rest where sk: "sort_key (\<lambda>x. length (snd x)) tp = x # rest"
    using assms(2) by (cases "sort_key (\<lambda>x. length (snd x)) tp") (auto dest: arg_cong [where f = length])
  then have s: "set tp = insert x (set rest)"
    by (metis list.simps(15) set_sort)
  have first: "set (set_iter rt (map fst (snd x))) = fst ` set (snd x)"
    using assms(1) by (simp add: valid_set_iter_def)
  have "intersect_postings rt tp = fold (intersect_step rt) rest (set_iter rt (map fst (snd x)))"
    by (simp add: intersect_postings_def sk split_beta)
  then show ?thesis
    by (auto simp: fold_intersect_step [OF assms(1)] first s)
qed

lemma distinct_intersect_postings:
  assumes "valid_set_iter (set_iter rt)"
  shows "distinct (intersect_postings rt tp)"
proof (cases "sort_key (\<lambda>x. length (snd x)) tp")
  case Nil then show ?thesis by (simp add: intersect_postings_def)
next
  case (Cons x rest)
  have "distinct (set_iter rt (map fst (snd x)))"
    using assms by (simp add: valid_set_iter_def)
  then show ?thesis
    by (simp add: intersect_postings_def Cons split_beta distinct_fold_intersect_step [OF assms])
qed

lemma intersect_postings_Nil [simp]: "intersect_postings rt [] = []"
  by (simp add: intersect_postings_def)

lemma fold_update_fresh:
  assumes "distinct ds" "set ds \<inter> fst ` set acc = {}"
  shows "fold (\<lambda>d acc. AList.update d (f d) acc) ds acc = acc @ map (\<lambda>d. (d, f d)) ds"
  using assms
proof (induction ds arbitrary: acc)
  case Nil then show ?case by simp
next
  case (Cons d ds)
  have fresh: "d \<notin> fst ` set acc" using Cons.prems(2) by auto
  have upd: "AList.update d (f d) acc = acc @ [(d, f d)]"
    using fresh by (induction acc) auto
  have "set ds \<inter> fst ` set (acc @ [(d, f d)]) = {}"
    using Cons.prems by auto
  with Cons.IH [of "acc @ [(d, f d)]"] Cons.prems(1) show ?case by (simp add: upd)
qed

lemma score_all_map:
  assumes "distinct cands"
  shows "score_all qts tp dfs n cands = map (\<lambda>d. (d, score_document qts tp dfs n d)) cands"
  unfolding score_all_def using fold_update_fresh [OF assms, of "[]"] by simp

lemma calculate_enhanced_tf_idf_eq:
  "calculate_enhanced_tf_idf (tf p) df n (is_important p) =
     (if df = 0 \<or> n = 0 then 0 else boost p * tf_weight p * idf n df)"
  by (simp add: calculate_enhanced_tf_idf_def boost_def tf_weight_def idf_def Let_def)

lemma fold_score_step:
  assumes "\<forall>t ps. t \<in> set qts \<longrightarrow> map_of tp t = Some ps \<longrightarrow> dict_get dfs t 0 = length ps \<and> ps \<noteq> []"
    and "\<forall>t ps. map_of tp t = Some ps \<longrightarrow> map_of ps d \<noteq> None"
  shows "fold (score_step tp dfs n d) qts (s0, m0) =
     (s0 + sum_list (map (\<lambda>t. if n = 0 then 0 else term_weight n (the (map_of tp t)) d)
                        (filter (\<lambda>t. map_of tp t \<noteq> None) qts)),
      m0 + length (filter (\<lambda>t. map_of tp t \<noteq> None) qts))"
  using assms(1)
proof (induction qts arbitrary: s0 m0)
  case Nil then show ?case by simp
next
  case (Cons q qts)
  have ih: "fold (score_step tp dfs n d) qts (s1, m1) =
     (s1 + sum_list (map (\<lambda>t. if n = 0 then 0 else term_weight n (the (map_of tp t)) d)
                        (filter (\<lambda>t. map_of tp t \<noteq> None) qts)),
      m1 + length (filter (\<lambda>t. map_of tp t \<noteq> None) qts))" for s1 m1
    using Cons.prems by (intro Cons.IH) auto
  show ?case
  proof (cases "map_of tp q")
    case None
    then have "score_step tp dfs n d q (s0, m0) = (s0, m0)" by (simp add: score_step_def)
    with None show ?thesis by (simp add: ih)
  next
    case (Some ps)
    with assms(2) obtain p where p: "map_of ps d = Some p" by auto
    from Cons.prems Some have df: "dict_get dfs q 0 = length ps" "ps \<noteq> []" by auto
    have "score_step tp dfs n d q (s0, m0) =
            (s0 + (if n = 0 then 0 else term_weight n ps d), m0 + 1)"
      using Some p df
      by (simp add: score_step_def calculate_enhanced_tf_idf_eq term_weight_def)
    with Some show ?thesis by (simp add: ih add.assoc)
  qed
qed

lemma score_document_candidate:
  assumes tp: "\<forall>t. map_of tp t = (if t \<in> set qts \<and> P t \<noteq> [] then Some (P t) else None)"
    and dfs: "\<forall>t. map_of dfs t =
               (if t \<in> set qts \<and> map_of tp t \<noteq> None then Some (length (P t)) else None)"
    and cand: "\<forall>t ps. map_of tp t = Some ps \<longrightarrow> map_of ps d \<noteq> None"
    and ne: "qts \<noteq> []"
  shows "score_document qts tp dfs n d = code_score P n qts d"
proof -
  have a1: "\<forall>t ps. t \<in> set qts \<longrightarrow> map_of tp t = Some ps
              \<longrightarrow> dict_get dfs t 0 = length ps \<and> ps \<noteq> []"
    using tp dfs by (auto simp: dict_get_def split: if_splits)
  have flt: "filter (\<lambda>t. map_of tp t \<noteq> None) qts = filter (\<lambda>t. P t \<noteq> []) qts"
    using tp by (intro filter_cong) auto
  have mp: "map (\<lambda>t. if n = 0 then 0 else term_weight n (the (map_of tp t)) d)
                (filter (\<lambda>t. P t \<noteq> []) qts)
            = map (\<lambda>t. if n = 0 then 0 else term_weight n (P t) d)
                (filter (\<lambda>t. P t \<noteq> []) qts)"
    using tp by (intro map_cong) auto
  have fold_eq: "fold (score_step tp dfs n d) qts (0, 0) =
     (sum_list (map (\<lambda>t. if n = 0 then 0 else term_weight n (P t) d)
                    (filter (\<lambda>t. P t \<noteq> []) qts)),
      length (filter (\<lambda>t. P t \<noteq> []) qts))"
    using fold_score_step [OF a1 cand, of n 0 0] unfolding flt mp by simp
  have len: "1 \<le> length qts" using ne by (cases qts) auto
  show ?thesis
  proof (cases "length qts > 1")
    case True
    then show ?thesis
      by (simp add: score_document_def fold_eq code_score_def Let_def)
  next
    case False
    with len have "length qts = 1" by simp
    then show ?thesis
      by (simp add: score_document_def fold_eq code_score_def Let_def)
  qed
qed

lemma search_ranked_consistent:
  assumes cc: "caches_consistent rt e" and vs: "valid_set_iter (set_iter rt)"
  shows "\<exists>e'. search_ranked rt e query =
            ((intersect_postings rt
                (pure_term_postings rt (index_file e) (process_query rt query) []),
              sort_key (\<lambda>x. - snd x)
                (map (\<lambda>d. (d, code_score (disk_postings rt (index_file e)) (total_docs e)
                                 (process_query rt query) d))
                   (intersect_postings rt
                      (pure_term_postings rt (index_file e) (process_query rt query) [])))),
             e')
          \<and> caches_consistent rt e' \<and> same_index e e'"
proof -
  define qts where "qts = process_query rt query"
  define P where "P = disk_postings rt (index_file e)"
  define tp where "tp = pure_term_postings rt (index_file e) qts []"
  define cands where "cands = intersect_postings rt tp"
  have tpm: "\<forall>t. map_of tp t = (if t \<in> set qts \<and> P t \<noteq> [] then Some (P t) else None)"
    by (simp add: tp_def P_def map_of_pure_term_postings)
  from fetch_term_postings_consistent [OF cc, of qts]
  obtain e1 where e1: "fetch_term_postings rt e qts = (tp, e1)"
    "caches_consistent rt e1" "same_index e e1" unfolding tp_def by blast
  show ?thesis
  proof (cases "qts = [] \<or> tp = [] \<or> cands = []")
    case True
    have tpn: "qts = [] \<Longrightarrow> tp = []" by (simp add: tp_def pure_term_postings_def)
    have cn: "tp = [] \<Longrightarrow> cands = []" by (simp add: cands_def)
    from True tpn cn have c: "cands = []" by blast
    have "\<exists>e'. search_ranked rt e query = (([], []), e') \<and> caches_consistent rt e' \<and> same_index e e'"
    proof (cases "qts = []")
      case True
      then show ?thesis using cc by (simp add: search_ranked_def qts_def [symmetric])
    next
      case False
      then show ?thesis using e1 c
        by (auto simp: search_ranked_def qts_def [symmetric] Let_def cands_def)
    qed
    then show ?thesis
      using c unfolding cands_def tp_def qts_def by simp
  next
    case False
    then have ne: "qts \<noteq> []" "tp \<noteq> []" "cands \<noteq> []" by auto
    from compute_term_dfs_consistent [OF e1(2), of qts tp]
    obtain dfs e2 where e2: "compute_term_dfs rt e1 qts tp = (dfs, e2)"
      "caches_consistent rt e2" "same_index e1 e2"
      "\<forall>t. map_of dfs t =
               (if t \<in> set qts \<and> map_of tp t \<noteq> None
                then Some (length (disk_postings rt (index_file e1) t)) else None)" by blast
    have f1: "index_file e1 = index_file e" using e1(3) by (simp add: same_index_def)
    have n2: "total_docs e2 = total_docs e" using e1(3) e2(3) by (simp add: same_index_def)
    have dfs: "\<forall>t. map_of dfs t =
               (if t \<in> set qts \<and> map_of tp t \<noteq> None then Some (length (P t)) else None)"
      using e2(4) by (simp add: f1 P_def)
    have dc: "distinct cands" unfolding cands_def using vs by (rule distinct_intersect_postings)
    have sc: "score_document qts tp dfs (total_docs e) d = code_score P (total_docs e) qts d"
      if "d \<in> set cands" for d
    proof (rule score_document_candidate [OF tpm dfs _ ne(1)], intro allI impI)
      fix t ps assume m: "map_of tp t = Some ps"
      then have "(t, ps) \<in> set tp" by (rule map_of_SomeD)
      moreover from that set_intersect_postings [OF vs ne(2)]
      have "\<forall>x \<in> set tp. d \<in> fst ` set (snd x)" by (simp add: cands_def)
      ultimately have "d \<in> fst ` set (snd (t, ps))" by blast
      then have "d \<in> fst ` set ps" by simp
      then show "map_of ps d \<noteq> None" by (simp add: map_of_eq_None_iff)
    qed
    have "score_all qts tp dfs (total_docs e2) cands
            = map (\<lambda>d. (d, code_score P (total_docs e) qts d)) cands"
      using sc by (simp add: score_all_map [OF dc] n2)
    then have "search_ranked rt e query =
        ((cands, sort_key (\<lambda>x. - snd x) (map (\<lambda>d. (d, code_score P (total_docs e) qts d)) cands)), e2)"
      using ne e1(1) e2(1)
      by (simp add: search_ranked_def qts_def [symmetric] Let_def cands_def [symmetric])
    moreover have "same_index e e2" using e1(3) e2(3) by (rule same_index_trans)
    ultimately show ?thesis
      using e2(2) unfolding cands_def tp_def qts_def P_def by blast
  qed
qed

lemma caches_consistent_empty:
  "postings_cache e = [] \<Longrightarrow> df_cache e = [] \<Longrightarrow> caches_consistent rt e"
  by (simp add: caches_consistent_def)

lemma valid_set_iter_slot_order: "valid_set_iter slot_order"
  by (simp add: valid_set_iter_def slot_order_def)

lemma set_py_slice_to: "set (py_slice_to k xs) \<subseteq> set xs"
  by (auto simp: py_slice_to_def dest: in_set_takeD)


lemma sorted_wrt_py_slice_to: "sorted_wrt R xs \<Longrightarrow> sorted_wrt R (py_slice_to k xs)"
  by (simp add: py_slice_to_def)

lemma resolve_urls_Nil [simp]: "resolve_urls i2u [] = []"
  by (simp add: resolve_urls_def)

lemma resolve_urls_Cons:
  "resolve_urls i2u ((d, s) # docs) =
     (case map_of i2u d of None \<Rightarrow> resolve_urls i2u docs
                         | Some url \<Rightarrow> (url, s) # resolve_urls i2u docs)"
  by (simp add: resolve_urls_def split: option.splits)

lemma set_resolve_urls:
  "set (resolve_urls i2u docs) = {(url, s). \<exists>d. (d, s) \<in> set docs \<and> map_of i2u d = Some url}"
proof (induction docs)
  case Nil then show ?case by simp
next
  case (Cons x docs)
  obtain d s where x: "x = (d, s)" by (cases x)
  show ?case unfolding x by (auto simp: resolve_urls_Cons Cons.IH split: option.splits)
qed


lemma sorted_resolve_urls:
  assumes "sorted_wrt (\<lambda>a b. snd b \<le> snd a) docs"
  shows "sorted_wrt (\<lambda>a b. snd b \<le> snd a) (resolve_urls i2u docs)"
  using assms
proof (induction docs)
  case Nil then show ?case by simp
next
  case (Cons x docs)
  obtain d s where x: "x = (d, s)" by (cases x)
  from Cons.prems x have le: "\<forall>y \<in> set docs. snd y \<le> s"
    and rest: "sorted_wrt (\<lambda>a b. snd b \<le> snd a) docs" by auto
  have "\<forall>y \<in> set (resolve_urls i2u docs). snd y \<le> s"
    using le by (auto simp: set_resolve_urls)
  with Cons.IH [OF rest] show ?case
    unfolding x by (simp add: resolve_urls_Cons split: option.splits)
qed


lemma sorted_desc_sort_key:
  "sorted_wrt (\<lambda>a b. snd b \<le> snd a) (sort_key (\<lambda>x. - snd x) (xs :: ('a \<times> real) list))"
proof -
  have "sorted (map (\<lambda>x. - snd x) (sort_key (\<lambda>x. - snd x) xs))" by (rule sorted_sort_key)
  then show ?thesis by (simp add: sorted_map)
qed

lemma search_via_ranked:
  assumes "caches_consistent rt e" "valid_set_iter (set_iter rt)"
  shows "fst (search rt e query top_k) =
           resolve_urls (id_to_url e) (py_slice_to top_k (snd (fst (search_ranked rt e query))))"
proof -
  from search_ranked_consistent [OF assms, of query]
  obtain e' where "snd (search_ranked rt e query) = e'" "same_index e e'" by auto
  then have "id_to_url (snd (search_ranked rt e query)) = id_to_url e"
    by (simp add: same_index_def)
  then show ?thesis by (simp add: search_def split_beta)
qed

lemma ranked_candidates:
  assumes cc: "caches_consistent rt e" and vs: "valid_set_iter (set_iter rt)"
  shows "fst (fst (search_ranked rt e query)) =
           intersect_postings rt
             (pure_term_postings rt (index_file e) (process_query rt query) [])"
    and "snd (fst (search_ranked rt e query)) =
           sort_key (\<lambda>x. - snd x)
             (map (\<lambda>d. (d, code_score (disk_postings rt (index_file e)) (total_docs e)
                              (process_query rt query) d))
                (fst (fst (search_ranked rt e query))))"
  using search_ranked_consistent [OF assms, of query] by auto

lemma get_postings_disk:
  "caches_consistent rt e \<Longrightarrow> fst (get_postings rt e t) = disk_postings rt (index_file e) t"
  using get_postings_consistent by blast

subsection \<open>C1: the boolean AND\<close>

lemma dog_consistent: "caches_consistent rt dog_engine"
  by (simp add: caches_consistent_empty dog_engine_def)

lemma example_valid: "valid_set_iter (set_iter (example_runtime table))"
  by (simp add: example_runtime_def valid_set_iter_slot_order)

lemma process_query_dog_zzz:
  "process_query (example_runtime table) ''dog zzz'' = [''dog'', ''zzz'']"
  by (simp add: process_query_def tokenize_def is_ascii_alnum_def ascii_lower_def
        example_runtime_def)

lemma process_query_dog:
  "process_query (example_runtime table) ''dog'' = [''dog'']"
  by (simp add: process_query_def tokenize_def is_ascii_alnum_def ascii_lower_def
        example_runtime_def)

lemma decimal_int_0: "decimal_int ''0'' = Some 0"
  by (simp add: decimal_int_def nat_of_digits_def)

lemma disk_postings_dog:
  "disk_postings (example_runtime dog_table) (Some ''index'') ''dog''
     = [(0, \<lparr>tf = 1, is_important = False\<rparr>)]"
  "disk_postings (example_runtime dog_table) (Some ''index'') ''zzz'' = []"
  by (simp_all add: disk_postings_def example_runtime_def dog_table_def decimal_int_0)

lemma slot_order_single: "slot_order [d] = [d]"
  by (simp add: slot_order_def)

lemma dog_zzz_candidates:
  "intersect_postings (example_runtime dog_table)
     (pure_term_postings (example_runtime dog_table) (Some ''index'') [''dog'', ''zzz''] [])
     = [0]"
  by (simp add: pure_term_postings_def pure_fetch_step_def disk_postings_dog
        intersect_postings_def)
     (simp add: example_runtime_def slot_order_single)

lemma dog_zzz_score:
  "code_score (disk_postings (example_runtime dog_table) (Some ''index'')) (Suc 0)
     [''dog'', ''zzz''] 0 = 1 / sqrt 2"
  by (simp add: code_score_def disk_postings_dog term_weight_def boost_def tf_weight_def
        idf_def)

lemma dog_zzz_ranked:
  "fst (search_ranked (example_runtime dog_table) dog_engine ''dog zzz'')
     = ([0], [(0, 1 / sqrt 2)])"
proof -
  have f: "index_file dog_engine = Some ''index''" "total_docs dog_engine = 1"
    by (simp_all add: dog_engine_def)
  from ranked_candidates [OF dog_consistent example_valid, of dog_table "''dog zzz''"]
  show ?thesis
    by (simp add: process_query_dog_zzz f dog_zzz_candidates dog_zzz_score prod_eq_iff)
qed

lemma dog_zzz_search:
  "fst (search (example_runtime dog_table) dog_engine ''dog zzz'' 10)
     = [(''u0'', 1 / sqrt 2)]"
  by (simp add: search_via_ranked [OF dog_consistent example_valid] dog_zzz_ranked
        py_slice_to_def resolve_urls_Cons)
     (simp add: dog_engine_def)

lemma dog_get_postings:
  "fst (get_postings (example_runtime dog_table) dog_engine ''dog'')
     = [(0, \<lparr>tf = 1, is_important = False\<rparr>)]"
  "fst (get_postings (example_runtime dog_table) dog_engine ''zzz'') = []"
  using disk_postings_dog
  by (simp_all add: get_postings_disk [OF dog_consistent]) (simp_all add: dog_engine_def)

lemma dog_candidates:
  "intersect_postings (example_runtime dog_table)
     (pure_term_postings (example_runtime dog_table) (Some ''index'') [''dog''] [])
     = [0]"
  by (simp add: pure_term_postings_def pure_fetch_step_def disk_postings_dog
        intersect_postings_def)
     (simp add: example_runtime_def slot_order_single)

lemma dog_score:
  "code_score (disk_postings (example_runtime dog_table) (Some ''index'')) (Suc 0)
     [''dog''] 0 = 23 / 20"
  by (simp add: code_score_def disk_postings_dog term_weight_def boost_def tf_weight_def
        idf_def)

lemma dog_ranked:
  "fst (search_ranked (example_runtime dog_table) dog_engine ''dog'')
     = ([0], [(0, 23 / 20)])"
proof -
  have f: "index_file dog_engine = Some ''index''" "total_docs dog_engine = 1"
    by (simp_all add: dog_engine_def)
  from ranked_candidates [OF dog_consistent example_valid, of dog_table "''dog''"]
  show ?thesis
    by (simp add: process_query_dog f dog_candidates dog_score prod_eq_iff)
qed

lemma dog_search:
  "fst (search (example_runtime dog_table) dog_engine ''dog'' 10) = [(''u0'', 23 / 20)]"
  by (simp add: search_via_ranked [OF dog_consistent example_valid] dog_ranked
        py_slice_to_def resolve_urls_Cons)
     (simp add: dog_engine_def)

text \<open>
  Claim C1 says that every returned document is in the posting list of every query term,
  and that the result is empty as soon as one query term has no posting list. The code
  drops the terms without postings before it intersects: for the query \<open>dog zzz\<close> on an
  index where document 0 contains \<open>dog\<close> and no document contains \<open>zzz\<close>, \<open>search\<close>
  returns document 0.
\<close>

theorem strict_and_counterexample:
  "\<exists>score. fst (search (example_runtime dog_table) dog_engine ''dog zzz'' 10)
             = [(''u0'', score)]
      \<and> process_query (example_runtime dog_table) ''dog zzz'' = [''dog'', ''zzz'']
      \<and> fst (get_postings (example_runtime dog_table) dog_engine ''zzz'') = []
      \<and> fst (fst (search_ranked (example_runtime dog_table) dog_engine ''dog zzz'')) = [0]
      \<and> id_to_url dog_engine = [(0, ''u0'')]"
  by (simp add: dog_zzz_search process_query_dog_zzz dog_get_postings dog_zzz_ranked)
     (simp add: dog_engine_def)

text \<open>
  Claim C1, amended. For an engine whose caches hold what it read from the index file,
  every document in the result list of \<open>search(Q, top_k)\<close> is a candidate whose doc-id is
  contained in \<open>postings(t)\<close> for every term \<open>t\<close> of the stemmed, deduplicated tokenization
  of \<open>Q\<close> that has a non-empty posting list; terms without postings are ignored, and
  \<open>search\<close> returns the empty result when no query term has a posting list.
\<close>

theorem and_over_terms_with_postings:
  assumes "caches_consistent rt e" and "valid_set_iter (set_iter rt)"
  shows
    "(\<forall>(url, score) \<in> set (fst (search rt e query top_k)).
        \<exists>d. map_of (id_to_url e) d = Some url
          \<and> d \<in> set (fst (fst (search_ranked rt e query)))
          \<and> (\<forall>t \<in> set (process_query rt query).
                fst (get_postings rt e t) \<noteq> []
                \<longrightarrow> d \<in> fst ` set (fst (get_postings rt e t))))
     \<and> ((\<forall>t \<in> set (process_query rt query). fst (get_postings rt e t) = [])
          \<longrightarrow> fst (search rt e query top_k) = [])"
proof -
  define qts where "qts = process_query rt query"
  define P where "P = disk_postings rt (index_file e)"
  define tp where "tp = pure_term_postings rt (index_file e) qts []"
  define cands where "cands = fst (fst (search_ranked rt e query))"
  define ranked where "ranked = snd (fst (search_ranked rt e query))"
  have gp: "fst (get_postings rt e t) = P t" for t
    unfolding P_def using assms(1) by (rule get_postings_disk)
  have c: "cands = intersect_postings rt tp"
    unfolding cands_def tp_def qts_def by (rule ranked_candidates(1) [OF assms])
  have r: "set ranked = (\<lambda>d. (d, code_score P (total_docs e) qts d)) ` set cands"
    unfolding ranked_def cands_def qts_def P_def
    by (subst ranked_candidates(2) [OF assms]) simp
  have res: "fst (search rt e query top_k) = resolve_urls (id_to_url e) (py_slice_to top_k ranked)"
    unfolding ranked_def by (rule search_via_ranked [OF assms])
  have member: "d \<in> fst ` set (P t)" if "d \<in> set cands" "t \<in> set qts" "P t \<noteq> []" for d t
  proof -
    from that(2,3) have "map_of tp t = Some (P t)"
      by (simp add: tp_def P_def map_of_pure_term_postings)
    then have in_tp: "(t, P t) \<in> set tp" by (rule map_of_SomeD)
    then have "tp \<noteq> []" by auto
    from set_intersect_postings [OF assms(2) this] that(1) c
    have "\<forall>x \<in> set tp. d \<in> fst ` set (snd x)" by simp
    with in_tp have "d \<in> fst ` set (snd (t, P t))" by blast
    then show ?thesis by simp
  qed
  have first: "\<exists>d. map_of (id_to_url e) d = Some url \<and> d \<in> set cands
          \<and> (\<forall>t \<in> set qts. P t \<noteq> [] \<longrightarrow> d \<in> fst ` set (P t))"
    if "(url, score) \<in> set (fst (search rt e query top_k))" for url score
  proof -
    from that have "(url, score) \<in> {(url, s). \<exists>d. (d, s) \<in> set (py_slice_to top_k ranked)
                                      \<and> map_of (id_to_url e) d = Some url}"
      by (simp only: res set_resolve_urls)
    then obtain d where d: "(d, score) \<in> set (py_slice_to top_k ranked)"
      "map_of (id_to_url e) d = Some url" by blast
    have "(d, score) \<in> set ranked"
      using set_py_slice_to [of top_k ranked] d(1) by (rule subsetD)
    then have dc: "d \<in> set cands" unfolding r by blast
    have "\<forall>t \<in> set qts. P t \<noteq> [] \<longrightarrow> d \<in> fst ` set (P t)"
      using member [OF dc] by simp
    with d(2) dc show ?thesis by (intro exI [of _ d]) simp
  qed
  have second: "fst (search rt e query top_k) = []" if "\<forall>t \<in> set qts. P t = []"
  proof -
    have "tp = []"
    proof (rule ccontr)
      assume "tp \<noteq> []"
      then obtain t ps where "(t, ps) \<in> set tp" by (cases tp) auto
      then have "(t, ps) \<in> set (pure_term_postings rt (index_file e) qts [])"
        by (simp only: tp_def)
      from pure_term_postings_entries [OF this]
      have "t \<in> set qts \<and> ps = P t \<and> ps \<noteq> []" unfolding P_def by auto
      with that show False by auto
    qed
    then have "cands = []" by (simp add: c)
    then have "ranked = []" using r by simp
    then show ?thesis by (simp add: res py_slice_to_def)
  qed
  show ?thesis
    unfolding gp qts_def [symmetric] cands_def [symmetric]
  proof (intro conjI ballI impI)
    fix x assume x: "x \<in> set (fst (search rt e query top_k))"
    obtain url score where xe: "x = (url, score)" by (cases x)
    from first [of url score] x xe
    show "case x of (url, score) \<Rightarrow>
            \<exists>d. map_of (id_to_url e) d = Some url \<and> d \<in> set cands
              \<and> (\<forall>t \<in> set qts. P t \<noteq> [] \<longrightarrow> d \<in> fst ` set (P t))"
      by simp
  next
    assume "\<forall>t \<in> set qts. P t = []"
    then show "fst (search rt e query top_k) = []" by (rule second)
  qed
qed

text \<open>The theorem at the query \<open>dog\<close> on the first example index.\<close>

theorem and_over_terms_with_postings_witness:
  "caches_consistent (example_runtime dog_table) dog_engine
   \<and> valid_set_iter (set_iter (example_runtime dog_table))
   \<and> fst (search (example_runtime dog_table) dog_engine ''dog'' 10) = [(''u0'', 23 / 20)]
   \<and> (\<exists>d. map_of (id_to_url dog_engine) d = Some ''u0''
         \<and> d \<in> fst ` set (fst (get_postings (example_runtime dog_table) dog_engine ''dog'')))"
proof -
  let ?rt = "example_runtime dog_table"
  have h1: "caches_consistent ?rt dog_engine" by (rule dog_consistent)
  have h2: "valid_set_iter (set_iter ?rt)" by (rule example_valid)
  from and_over_terms_with_postings [OF h1 h2, of "''dog''" 10]
  have "\<forall>(url, score) \<in> set (fst (search ?rt dog_engine ''dog'' 10)).
        \<exists>d. map_of (id_to_url dog_engine) d = Some url
          \<and> d \<in> set (fst (fst (search_ranked ?rt dog_engine ''dog'')))
          \<and> (\<forall>t \<in> set (process_query ?rt ''dog'').
                fst (get_postings ?rt dog_engine t) \<noteq> []
                \<longrightarrow> d \<in> fst ` set (fst (get_postings ?rt dog_engine t)))" by blast
  then have "\<exists>d. map_of (id_to_url dog_engine) d = Some ''u0''
         \<and> d \<in> fst ` set (fst (get_postings ?rt dog_engine ''dog''))"
    by (simp add: dog_search process_query_dog dog_get_postings)
  with h1 h2 dog_search show ?thesis by blast
qed

subsection \<open>C2: the score of a candidate\<close>

lemma candidate_in_postings:
  assumes cc: "caches_consistent rt e" and vs: "valid_set_iter (set_iter rt)"
    and d: "d \<in> set (fst (fst (search_ranked rt e query)))"
    and t: "t \<in> set (process_query rt query)"
    and ne: "disk_postings rt (index_file e) t \<noteq> []"
  shows "d \<in> fst ` set (disk_postings rt (index_file e) t)"
proof -
  let ?tp = "pure_term_postings rt (index_file e) (process_query rt query) []"
  from t ne have "map_of ?tp t = Some (disk_postings rt (index_file e) t)"
    by (simp add: map_of_pure_term_postings)
  then have in_tp: "(t, disk_postings rt (index_file e) t) \<in> set ?tp" by (rule map_of_SomeD)
  then have "?tp \<noteq> []" by auto
  from set_intersect_postings [OF vs this] d
  have "\<forall>x \<in> set ?tp. d \<in> fst ` set (snd x)"
    by (simp add: ranked_candidates(1) [OF cc vs])
  with in_tp have "d \<in> fst ` set (snd (t, disk_postings rt (index_file e) t))" by blast
  then show ?thesis by simp
qed

lemma map_of_ranked:
  assumes cc: "caches_consistent rt e" and vs: "valid_set_iter (set_iter rt)"
    and d: "d \<in> set (fst (fst (search_ranked rt e query)))"
  shows "map_of (snd (fst (search_ranked rt e query))) d
           = Some (code_score (disk_postings rt (index_file e)) (total_docs e)
                     (process_query rt query) d)"
proof -
  let ?cands = "fst (fst (search_ranked rt e query))"
  let ?f = "\<lambda>d. (d, code_score (disk_postings rt (index_file e)) (total_docs e)
                     (process_query rt query) d)"
  let ?ranked = "sort_key (\<lambda>x. - snd x) (map ?f ?cands)"
  have dc: "distinct ?cands"
    by (simp add: ranked_candidates(1) [OF cc vs] distinct_intersect_postings [OF vs])
  have "map fst (map ?f ?cands) = ?cands" by (simp add: comp_def)
  then have "distinct (map fst (map ?f ?cands))" using dc by simp
  then have "distinct (map ?f ?cands) \<and> inj_on fst (set (map ?f ?cands))"
    by (simp only: distinct_map)
  then have "distinct ?ranked \<and> inj_on fst (set ?ranked)" by simp
  then have dk: "distinct (map fst ?ranked)" by (simp only: distinct_map)
  have "?f d \<in> set ?ranked" using d by simp
  then have "map_of ?ranked d = Some (snd (?f d))"
    using dk by (simp only: fst_conv snd_conv map_of_eq_Some_iff)
  then show ?thesis by (simp add: ranked_candidates(2) [OF cc vs, symmetric])
qed

lemma code_score_eq_spec_score:
  assumes "\<forall>t \<in> set qts. P t \<noteq> []" and "\<forall>t \<in> set qts. d \<in> fst ` set (P t)" and "n \<noteq> 0"
  shows "code_score P n qts d = spec_score P n qts d"
proof -
  have f1: "filter (\<lambda>t. P t \<noteq> []) qts = qts" using assms(1) by (simp add: filter_id_conv)
  have f2: "filter (\<lambda>t. d \<in> fst ` set (P t)) qts = qts" using assms(2) by (simp add: filter_id_conv)
  show ?thesis
    using assms(3) by (simp add: code_score_def spec_score_def f1 f2)
qed

lemma one_over_sqrt_2: "1 / sqrt 2 \<noteq> (23 / 20 :: real)"
proof -
  have "1 < sqrt 2" by simp
  then have "1 / sqrt 2 < 1" by simp
  then have "1 / sqrt 2 < (23 / 20 :: real)" by linarith
  then show ?thesis by (rule less_imp_neq)
qed

lemma dog_zzz_spec_score:
  "spec_score (\<lambda>t. fst (get_postings (example_runtime dog_table) dog_engine t))
     (total_docs dog_engine) (process_query (example_runtime dog_table) ''dog zzz'') 0
     = 23 / 20"
proof -
  have "(\<lambda>t. fst (get_postings (example_runtime dog_table) dog_engine t))
          = disk_postings (example_runtime dog_table) (Some ''index'')"
    using get_postings_disk [OF dog_consistent, of "example_runtime dog_table"]
    by (simp add: dog_engine_def)
  then show ?thesis
    by (simp add: process_query_dog_zzz spec_score_def disk_postings_dog term_weight_def
          boost_def tf_weight_def idf_def dog_engine_def)
qed

text \<open>
  Claim C2 gives every candidate the score \<open>1.15 \<cdot> (1 / sqrt q') \<cdot> \<Sigma> boost \<cdot> tf_weight \<cdot> idf\<close>
  over the matched terms, \<open>q'\<close> their number. The code multiplies by 1.15 only when every
  query term matched, and divides by the square root of the number of all query terms.
  For the query \<open>dog zzz\<close> on the first example index, document 0 is a candidate with
  score \<open>1 / sqrt 2\<close>; the formula of the claim gives \<open>1.15\<close>.
\<close>

theorem score_formula_counterexample:
  "\<exists>cands ranked.
      fst (search_ranked (example_runtime dog_table) dog_engine ''dog zzz'')
        = (cands, ranked)
      \<and> 0 \<in> set cands
      \<and> map_of ranked 0 = Some (1 / sqrt 2)
      \<and> spec_score (\<lambda>t. fst (get_postings (example_runtime dog_table) dog_engine t))
           (total_docs dog_engine)
           (process_query (example_runtime dog_table) ''dog zzz'') 0 = 23 / 20
      \<and> map_of ranked 0
           \<noteq> Some (spec_score (\<lambda>t. fst (get_postings (example_runtime dog_table) dog_engine t))
                     (total_docs dog_engine)
                     (process_query (example_runtime dog_table) ''dog zzz'') 0)"
  using one_over_sqrt_2 by (simp add: dog_zzz_ranked dog_zzz_spec_score)

text \<open>
  Claim C2, amended. For an engine whose caches hold what it read from the index file
  and every candidate document \<open>d\<close> surviving the intersection, search assigns
  \<open>score(d) = b \<cdot> (1 / sqrt q) \<cdot> \<Sigma> boost(t,d) \<cdot> tf_weight(t,d) \<cdot> idf(t)\<close>, the sum over the query
  terms that have a posting list, where \<open>q\<close> is the number of all deduplicated query
  terms, \<open>b\<close> is 1.15 when every query term has a posting list and 1 otherwise, and every
  term contributes 0 when the document count \<open>N\<close> is 0; \<open>tf_weight\<close>, \<open>idf\<close> and \<open>boost\<close> are
  as in the claim. When every query term has a posting list and \<open>N > 0\<close>, this is the
  formula of the claim. Every returned pair carries the score of a candidate that has the
  returned URL.
\<close>

theorem score_of_candidate:
  assumes "caches_consistent rt e" and "valid_set_iter (set_iter rt)"
    and "d \<in> set (fst (fst (search_ranked rt e query)))"
  shows
    "map_of (snd (fst (search_ranked rt e query))) d
       = Some (code_score (\<lambda>t. fst (get_postings rt e t)) (total_docs e)
                 (process_query rt query) d)
     \<and> ((\<forall>t \<in> set (process_query rt query). fst (get_postings rt e t) \<noteq> [])
          \<longrightarrow> total_docs e \<noteq> 0
          \<longrightarrow> code_score (\<lambda>t. fst (get_postings rt e t)) (total_docs e)
                 (process_query rt query) d
              = spec_score (\<lambda>t. fst (get_postings rt e t)) (total_docs e)
                  (process_query rt query) d)
     \<and> (\<forall>(url, score) \<in> set (fst (search rt e query top_k)).
           \<exists>d' \<in> set (fst (fst (search_ranked rt e query))).
             map_of (id_to_url e) d' = Some url
             \<and> score = code_score (\<lambda>t. fst (get_postings rt e t)) (total_docs e)
                         (process_query rt query) d')"
proof -
  define P where "P = disk_postings rt (index_file e)"
  define qts where "qts = process_query rt query"
  define cands where "cands = fst (fst (search_ranked rt e query))"
  define ranked where "ranked = snd (fst (search_ranked rt e query))"
  have gp: "fst (get_postings rt e t) = P t" for t
    unfolding P_def by (rule get_postings_disk [OF assms(1)])
  have a: "map_of ranked d = Some (code_score P (total_docs e) qts d)"
    unfolding ranked_def P_def qts_def by (rule map_of_ranked [OF assms])
  have b: "code_score P (total_docs e) qts d = spec_score P (total_docs e) qts d"
    if all: "\<forall>t \<in> set qts. P t \<noteq> []" and n: "total_docs e \<noteq> 0"
  proof (rule code_score_eq_spec_score [OF all _ n], rule ballI)
    fix t assume t: "t \<in> set qts"
    with all have "P t \<noteq> []" by blast
    with t show "d \<in> fst ` set (P t)"
      unfolding P_def qts_def by (intro candidate_in_postings [OF assms])
  qed
  have r: "set ranked = (\<lambda>d. (d, code_score P (total_docs e) qts d)) ` set cands"
    unfolding ranked_def cands_def qts_def P_def
    by (subst ranked_candidates(2) [OF assms(1,2)]) simp
  have res: "fst (search rt e query top_k) = resolve_urls (id_to_url e) (py_slice_to top_k ranked)"
    unfolding ranked_def by (rule search_via_ranked [OF assms(1,2)])
  have c: "\<exists>d' \<in> set cands. map_of (id_to_url e) d' = Some url
             \<and> score = code_score P (total_docs e) qts d'"
    if "(url, score) \<in> set (fst (search rt e query top_k))" for url score
  proof -
    from that have "(url, score) \<in> {(url, s). \<exists>d. (d, s) \<in> set (py_slice_to top_k ranked)
                                      \<and> map_of (id_to_url e) d = Some url}"
      by (simp only: res set_resolve_urls)
    then obtain d' where d': "(d', score) \<in> set (py_slice_to top_k ranked)"
      "map_of (id_to_url e) d' = Some url" by blast
    have "(d', score) \<in> set ranked"
      using set_py_slice_to [of top_k ranked] d'(1) by (rule subsetD)
    then have "d' \<in> set cands \<and> score = code_score P (total_docs e) qts d'"
      unfolding r by blast
    with d'(2) show ?thesis by blast
  qed
  show ?thesis
    unfolding gp qts_def [symmetric] cands_def [symmetric] ranked_def [symmetric]
  proof (intro conjI impI ballI)
    show "map_of ranked d = Some (code_score P (total_docs e) qts d)" by (rule a)
  next
    assume "\<forall>t \<in> set qts. P t \<noteq> []" "total_docs e \<noteq> 0"
    then show "code_score P (total_docs e) qts d = spec_score P (total_docs e) qts d" by (rule b)
  next
    fix x assume x: "x \<in> set (fst (search rt e query top_k))"
    obtain url score where xe: "x = (url, score)" by (cases x)
    from c [of url score] x xe
    show "case x of (url, score) \<Rightarrow>
            \<exists>d' \<in> set cands. map_of (id_to_url e) d' = Some url
              \<and> score = code_score P (total_docs e) qts d'" by simp
  qed
qed

text \<open>
  The theorem at the query \<open>dog\<close> on the first example index: document 0 has the score
  1.15, which is also the value of the claim's formula.
\<close>

theorem score_of_candidate_witness:
  "caches_consistent (example_runtime dog_table) dog_engine
   \<and> valid_set_iter (set_iter (example_runtime dog_table))
   \<and> 0 \<in> set (fst (fst (search_ranked (example_runtime dog_table) dog_engine ''dog'')))
   \<and> code_score (\<lambda>t. fst (get_postings (example_runtime dog_table) dog_engine t))
        (total_docs dog_engine) (process_query (example_runtime dog_table) ''dog'') 0
       = 23 / 20
   \<and> spec_score (\<lambda>t. fst (get_postings (example_runtime dog_table) dog_engine t))
        (total_docs dog_engine) (process_query (example_runtime dog_table) ''dog'') 0
       = 23 / 20"
proof -
  let ?rt = "example_runtime dog_table"
  have h1: "caches_consistent ?rt dog_engine" by (rule dog_consistent)
  have h2: "valid_set_iter (set_iter ?rt)" by (rule example_valid)
  have h3: "0 \<in> set (fst (fst (search_ranked ?rt dog_engine ''dog'')))"
    by (simp add: dog_ranked)
  have all: "\<forall>t \<in> set (process_query ?rt ''dog''). fst (get_postings ?rt dog_engine t) \<noteq> []"
    by (simp add: process_query_dog dog_get_postings)
  have n: "total_docs dog_engine \<noteq> 0" by (simp add: dog_engine_def)
  from score_of_candidate [OF h1 h2 h3, of 10] all n
  have "Some (23 / 20) = Some (code_score (\<lambda>t. fst (get_postings ?rt dog_engine t))
           (total_docs dog_engine) (process_query ?rt ''dog'') 0)"
    and "code_score (\<lambda>t. fst (get_postings ?rt dog_engine t))
           (total_docs dog_engine) (process_query ?rt ''dog'') 0
         = spec_score (\<lambda>t. fst (get_postings ?rt dog_engine t))
           (total_docs dog_engine) (process_query ?rt ''dog'') 0"
    by (simp_all add: dog_ranked)
  with h1 h2 h3 show ?thesis by simp
qed

subsection \<open>C5: the order of the results\<close>

lemma cat_consistent: "caches_consistent rt cat_engine" "caches_consistent rt cat_engine_unmapped"
  by (simp_all add: caches_consistent_empty cat_engine_def cat_engine_unmapped_def)

lemma cat_fields:
  "index_file cat_engine = Some ''index''" "total_docs cat_engine = 2"
  "index_file cat_engine_unmapped = Some ''index''" "total_docs cat_engine_unmapped = 2"
  "id_to_url cat_engine = [(1, ''u1''), (8, ''u8'')]"
  "id_to_url cat_engine_unmapped = [(1, ''u1'')]"
  by (simp_all add: cat_engine_def cat_engine_unmapped_def)

lemma process_query_cat: "process_query (example_runtime table) ''cat'' = [''cat'']"
  by (simp add: process_query_def tokenize_def is_ascii_alnum_def ascii_lower_def
        example_runtime_def)

lemma decimal_int_1_8: "decimal_int ''1'' = Some 1" "decimal_int ''8'' = Some 8"
  by (simp_all add: decimal_int_def nat_of_digits_def)

lemma disk_postings_cat:
  "disk_postings (example_runtime cat_table) (Some ''index'') ''cat''
     = [(1, \<lparr>tf = 1, is_important = False\<rparr>), (8, \<lparr>tf = 1, is_important = False\<rparr>)]"
  by (simp add: disk_postings_def example_runtime_def cat_table_def decimal_int_1_8)

lemma slot_order_1_8: "slot_order [1, 8] = [8, 1]"
  by (simp add: slot_order_def)

lemma cat_candidates:
  "intersect_postings (example_runtime cat_table)
     (pure_term_postings (example_runtime cat_table) (Some ''index'') [''cat''] [])
     = [8, 1]"
  by (simp add: pure_term_postings_def pure_fetch_step_def disk_postings_cat
        intersect_postings_def)
     (simp add: example_runtime_def slot_order_1_8)

lemma cat_score:
  "code_score (disk_postings (example_runtime cat_table) (Some ''index'')) 2 [''cat''] 8
     = 23 / 20"
  "code_score (disk_postings (example_runtime cat_table) (Some ''index'')) 2 [''cat''] 1
     = 23 / 20"
  by (simp_all add: code_score_def disk_postings_cat term_weight_def boost_def tf_weight_def
        idf_def)

lemma cat_ranked:
  "fst (search_ranked (example_runtime cat_table) cat_engine ''cat'')
     = ([8, 1], [(8, 23 / 20), (1, 23 / 20)])"
  "fst (search_ranked (example_runtime cat_table) cat_engine_unmapped ''cat'')
     = ([8, 1], [(8, 23 / 20), (1, 23 / 20)])"
proof -
  from ranked_candidates [OF cat_consistent(1) example_valid, of cat_table "''cat''"]
  show "fst (search_ranked (example_runtime cat_table) cat_engine ''cat'')
     = ([8, 1], [(8, 23 / 20), (1, 23 / 20)])"
    by (simp add: process_query_cat cat_fields cat_candidates cat_score prod_eq_iff)
  from ranked_candidates [OF cat_consistent(2) example_valid, of cat_table "''cat''"]
  show "fst (search_ranked (example_runtime cat_table) cat_engine_unmapped ''cat'')
     = ([8, 1], [(8, 23 / 20), (1, 23 / 20)])"
    by (simp add: process_query_cat cat_fields cat_candidates cat_score prod_eq_iff)
qed

lemma cat_search:
  "fst (search (example_runtime cat_table) cat_engine ''cat'' 10)
     = [(''u8'', 23 / 20), (''u1'', 23 / 20)]"
  "fst (search (example_runtime cat_table) cat_engine_unmapped ''cat'' 1) = []"
  by (simp_all add: search_via_ranked [OF cat_consistent(1) example_valid]
        search_via_ranked [OF cat_consistent(2) example_valid] cat_ranked
        py_slice_to_def resolve_urls_Cons cat_fields)

lemma ties_in_candidate_order:
  "map fst (filter (\<lambda>x. snd x = s) (sort_key (\<lambda>x. - snd x) (map (\<lambda>d. (d, f d)) cands)))
     = filter (\<lambda>d. f d = (s :: real)) cands"
proof -
  have "filter (\<lambda>x. snd x = s) (sort_key (\<lambda>x. - snd x) (map (\<lambda>d. (d, f d)) cands))
          = filter (\<lambda>x. - snd x = - s) (sort_key (\<lambda>x. - snd x) (map (\<lambda>d. (d, f d)) cands))"
    by simp
  also have "\<dots> = filter (\<lambda>x. - snd x = - s) (map (\<lambda>d. (d, f d)) cands)"
    by (rule sort_key_stable)
  finally show ?thesis by (simp add: filter_map comp_def)
qed

text \<open>
  Claim C5 says that candidates with equal scores are ordered by ascending doc-id. The
  code sorts by score only, with a stable sort, so equal scores stay in the order in which
  Python iterates the candidate set. On the second example index, documents 1 and 8 both
  score 1.15 for the query \<open>cat\<close>; the set \<open>{1, 8}\<close> iterates as 8, 1, and \<open>search\<close> returns
  document 8 before document 1.
\<close>

theorem tie_break_counterexample:
  "fst (search (example_runtime cat_table) cat_engine ''cat'' 10)
     = [(''u8'', 23 / 20), (''u1'', 23 / 20)]
   \<and> snd (fst (search_ranked (example_runtime cat_table) cat_engine ''cat''))
       = [(8, 23 / 20), (1, 23 / 20)]
   \<and> id_to_url cat_engine = [(1, ''u1''), (8, ''u8'')]
   \<and> \<not> ties_by_doc_id (snd (fst (search_ranked (example_runtime cat_table) cat_engine ''cat'')))"
  by (simp add: cat_search cat_ranked cat_fields ties_by_doc_id_def)

text \<open>
  Claim C5, amended. For an engine whose caches hold what it read from the index file,
  the result list of search is sorted by score in descending order: the score of
  \<open>result[i]\<close> is at least the score of \<open>result[i+1]\<close>, and of every later result. So is the
  ranked list before truncation, and there the candidates with equal scores are in the
  order in which the candidate set is iterated.
\<close>

theorem results_sorted_by_score:
  assumes "caches_consistent rt e" and "valid_set_iter (set_iter rt)"
  shows
    "sorted_wrt (\<lambda>a b. snd b \<le> snd a) (fst (search rt e query top_k))
     \<and> (\<forall>i. i + 1 < length (fst (search rt e query top_k))
           \<longrightarrow> snd (fst (search rt e query top_k) ! (i + 1))
                 \<le> snd (fst (search rt e query top_k) ! i))
     \<and> sorted_wrt (\<lambda>a b. snd b \<le> snd a) (snd (fst (search_ranked rt e query)))
     \<and> (\<forall>s. map fst (filter (\<lambda>x. snd x = s) (snd (fst (search_ranked rt e query))))
            = filter (\<lambda>d. code_score (\<lambda>t. fst (get_postings rt e t)) (total_docs e)
                              (process_query rt query) d = s)
                (fst (fst (search_ranked rt e query))))"
proof -
  define P where "P = disk_postings rt (index_file e)"
  have gp: "fst (get_postings rt e t) = P t" for t
    unfolding P_def by (rule get_postings_disk [OF assms(1)])
  let ?ranked = "snd (fst (search_ranked rt e query))"
  let ?results = "fst (search rt e query top_k)"
  have r: "?ranked = sort_key (\<lambda>x. - snd x)
             (map (\<lambda>d. (d, code_score P (total_docs e) (process_query rt query) d))
                (fst (fst (search_ranked rt e query))))"
    unfolding P_def by (rule ranked_candidates(2) [OF assms])
  have s1: "sorted_wrt (\<lambda>a b. snd b \<le> snd a) ?ranked"
    by (subst r) (rule sorted_desc_sort_key)
  have s2: "sorted_wrt (\<lambda>a b. snd b \<le> snd a) ?results"
    unfolding search_via_ranked [OF assms]
    by (intro sorted_resolve_urls sorted_wrt_py_slice_to s1)
  have adj: "snd (?results ! (i + 1)) \<le> snd (?results ! i)" if "i + 1 < length ?results" for i
    using sorted_wrt_nth_less [OF s2, of i "i + 1"] that by simp
  have ties: "map fst (filter (\<lambda>x. snd x = s) ?ranked)
            = filter (\<lambda>d. code_score P (total_docs e) (process_query rt query) d = s)
                (fst (fst (search_ranked rt e query)))" for s
    by (subst r) (rule ties_in_candidate_order)
  show ?thesis
    unfolding gp using s1 s2 adj ties by (intro conjI allI impI)
qed

text \<open>
  The theorem at the query \<open>cat\<close> on the second example index: the two results are in
  descending order of score, and the two candidates with score 1.15 are ranked in the
  iteration order 8, 1 of the candidate set.
\<close>

theorem results_sorted_by_score_witness:
  "caches_consistent (example_runtime cat_table) cat_engine
   \<and> valid_set_iter (set_iter (example_runtime cat_table))
   \<and> sorted_wrt (\<lambda>a b. snd b \<le> snd a)
        (fst (search (example_runtime cat_table) cat_engine ''cat'' 10))
   \<and> length (fst (search (example_runtime cat_table) cat_engine ''cat'' 10)) = 2
   \<and> map fst (filter (\<lambda>x. snd x = 23 / 20)
        (snd (fst (search_ranked (example_runtime cat_table) cat_engine ''cat'')))) = [8, 1]
   \<and> fst (fst (search_ranked (example_runtime cat_table) cat_engine ''cat'')) = [8, 1]"
proof -
  let ?rt = "example_runtime cat_table"
  have h1: "caches_consistent ?rt cat_engine" by (rule cat_consistent)
  have h2: "valid_set_iter (set_iter ?rt)" by (rule example_valid)
  from results_sorted_by_score [OF h1 h2, of "''cat''" 10]
  have "sorted_wrt (\<lambda>a b. snd b \<le> snd a) (fst (search ?rt cat_engine ''cat'' 10))" by blast
  moreover have "length (fst (search ?rt cat_engine ''cat'' 10)) = 2"
    by (simp add: cat_search)
  moreover have "map fst (filter (\<lambda>x. snd x = 23 / 20)
        (snd (fst (search_ranked ?rt cat_engine ''cat'')))) = [8, 1]"
    by (simp add: cat_ranked)
  moreover have "fst (fst (search_ranked ?rt cat_engine ''cat'')) = [8, 1]"
    by (simp add: cat_ranked)
  ultimately show ?thesis using h1 h2 by blast
qed

subsection \<open>C9: truncation before the URLs are resolved\<close>



subsection \<open>The caches of an engine stay consistent\<close>

lemma new_engine_consistent:
  "new_m3_search_engine rt dir = Inr e \<Longrightarrow> caches_consistent rt e"
  by (auto simp: new_m3_search_engine_def Let_def caches_consistent_def
           split: option.splits)

lemma search_keeps_consistency:
  assumes "caches_consistent rt e" "valid_set_iter (set_iter rt)"
  shows "caches_consistent rt (snd (search rt e query top_k))
       \<and> same_index e (snd (search rt e query top_k))"
proof -
  from search_ranked_consistent [OF assms, of query]
  obtain e' where "snd (search_ranked rt e query) = e'" "caches_consistent rt e'"
    "same_index e e'" by auto
  then show ?thesis by (simp add: search_def split_beta)
qed

end
